theory Spec2Isabelle
  imports Main "HOL-Library.List_Lexorder" "HOL-Library.Char_ord" "HOL-Library.AList"
    "HOL-Library.Multiset"
begin

section \<open>Paths and library functions\<close>

text \<open>
  The development embeds \<^verbatim>\<open>Scripts/smart-backup.py\<close> (class \<^verbatim>\<open>SmartBackup\<close>).
  Byte strings and Python strings are both lists of 8-bit characters. A path relative to a
  root directory is the list of its components (\<^verbatim>\<open>Path.parts\<close>); \<^verbatim>\<open>rglob("*")\<close> never
  yields the root itself, so the paths met in a walk are non-empty.
\<close>

type_synonym bytes = string
type_synonym path = "string list"

text \<open>\<^verbatim>\<open>str(rel_path)\<close>: the components joined by the separator.\<close>

fun path_str :: "path \<Rightarrow> string" where
  "path_str [] = ''.''"
| "path_str [c] = c"
| "path_str (c # d # p) = c @ ''/'' @ path_str (d # p)"

text \<open>\<^verbatim>\<open>name.rfind(c)\<close>, with \<open>None\<close> for Python's \<open>-1\<close>.\<close>

fun rfind :: "char \<Rightarrow> string \<Rightarrow> nat option" where
  "rfind c [] = None"
| "rfind c (x # xs) =
     (case rfind c xs of
        Some i \<Rightarrow> Some (Suc i)
      | None \<Rightarrow> if x = c then Some 0 else None)"

text \<open>
  \<^verbatim>\<open>PurePath.suffix\<close>: with \<open>i = name.rfind('.')\<close>, the suffix is \<open>name[i:]\<close> when
  \<open>0 < i < len(name) - 1\<close> and the empty string otherwise.
\<close>

definition name_suffix :: "string \<Rightarrow> string" where
  "name_suffix name =
     (case rfind (CHR ''.'') name of
        None \<Rightarrow> []
      | Some i \<Rightarrow> if 0 < i \<and> Suc i < length name then drop i name else [])"

definition path_name :: "path \<Rightarrow> string" where
  "path_name p = (if p = [] then [] else last p)"

definition suffix :: "path \<Rightarrow> string" where
  "suffix p = name_suffix (path_name p)"

text \<open>
  \<^verbatim>\<open>dest_path.with_suffix('')\<close>: the last component loses its suffix (it is unchanged
  when it has none). \<^verbatim>\<open>Path(f"{dest_path}.gz")\<close> appends to the last component.
\<close>

definition with_suffix_empty :: "path \<Rightarrow> path" where
  "with_suffix_empty p =
     butlast p @ [take (length (path_name p) - length (suffix p)) (path_name p)]"

definition add_gz :: "path \<Rightarrow> path" where
  "add_gz p = butlast p @ [path_name p @ ''.gz'']"

text \<open>
  \<^verbatim>\<open>s.find(sub)\<close>: the least index at which \<open>sub\<close> occurs in \<open>s\<close>, with \<open>None\<close> for
  Python's \<open>-1\<close>.
\<close>

fun str_find :: "string \<Rightarrow> string \<Rightarrow> nat option" where
  "str_find [] sub = (if sub = [] then Some 0 else None)"
| "str_find (c # s) sub =
     (if take (length sub) (c # s) = sub then Some 0
      else map_option Suc (str_find s sub))"

text \<open>\<^verbatim>\<open>pattern.replace('*', '')\<close>.\<close>

definition remove_stars :: "string \<Rightarrow> string" where
  "remove_stars pat = filter (\<lambda>c. c \<noteq> CHR ''*'') pat"

text \<open>\<^verbatim>\<open>timestamp.replace(':', '-')\<close>.\<close>

definition colons_to_hyphens :: "string \<Rightarrow> string" where
  "colons_to_hyphens s = map (\<lambda>c. if c = CHR '':'' then CHR ''-'' else c) s"

section \<open>Timestamps\<close>

text \<open>
  A \<^verbatim>\<open>datetime\<close> object holds its fields. \<^verbatim>\<open>isoformat()\<close> prints them with fixed
  widths, \<^verbatim>\<open>YYYY-MM-DDTHH:MM:SS\<close>, followed by \<^verbatim>\<open>.ffffff\<close> only when the microsecond
  field is not zero. \<open>zpad n k\<close> is the decimal numeral of \<open>k\<close> in \<open>n\<close> digits, which
  is \<^verbatim>\<open>%0nd\<close> for the values that the fields of a \<^verbatim>\<open>datetime\<close> can take.
\<close>

record datetime =
  year :: nat
  month :: nat
  day :: nat
  hour :: nat
  minute :: nat
  second :: nat
  microsecond :: nat

definition digit :: "nat \<Rightarrow> char" where
  "digit d = char_of (48 + d)"

fun zpad :: "nat \<Rightarrow> nat \<Rightarrow> string" where
  "zpad 0 k = []"
| "zpad (Suc n) k = zpad n (k div 10) @ [digit (k mod 10)]"

definition isoformat :: "datetime \<Rightarrow> string" where
  "isoformat dt =
     zpad 4 (year dt) @ ''-'' @ zpad 2 (month dt) @ ''-'' @ zpad 2 (day dt) @ ''T''
     @ zpad 2 (hour dt) @ '':'' @ zpad 2 (minute dt) @ '':'' @ zpad 2 (second dt)
     @ (if microsecond dt = 0 then [] else ''.'' @ zpad 6 (microsecond dt))"

text \<open>
  The proleptic Gregorian ordinal of a date as \<^verbatim>\<open>datetime\<close> computes it
  (\<^verbatim>\<open>_days_before_year\<close>, \<^verbatim>\<open>_days_in_month\<close>, \<^verbatim>\<open>_days_before_month\<close>,
  \<^verbatim>\<open>_ymd2ord\<close>), the range of the fields, and the number of microseconds from the start
  of day 0 to a \<^verbatim>\<open>datetime\<close>. Subtracting a \<^verbatim>\<open>timedelta\<close> subtracts on that scale.
\<close>

definition is_leap :: "nat \<Rightarrow> bool" where
  "is_leap y = (y mod 4 = 0 \<and> (y mod 100 \<noteq> 0 \<or> y mod 400 = 0))"

definition days_before_year :: "nat \<Rightarrow> int" where
  "days_before_year y =
     (let z = int y - 1 in z * 365 + z div 4 - z div 100 + z div 400)"

definition days_in_month :: "nat \<Rightarrow> nat \<Rightarrow> int" where
  "days_in_month y m =
     (if m = 2 \<and> is_leap y then 29
      else [0, 31, 28, 31, 30, 31, 30, 31, 31, 30, 31, 30, 31] ! m)"

definition days_before_month :: "nat \<Rightarrow> nat \<Rightarrow> int" where
  "days_before_month y m =
     [0, 0, 31, 59, 90, 120, 151, 181, 212, 243, 273, 304, 334] ! m
     + (if 2 < m \<and> is_leap y then 1 else 0)"

definition ymd2ord :: "nat \<Rightarrow> nat \<Rightarrow> nat \<Rightarrow> int" where
  "ymd2ord y m d = days_before_year y + days_before_month y m + int d"

definition valid_datetime :: "datetime \<Rightarrow> bool" where
  "valid_datetime dt \<longleftrightarrow>
     1 \<le> year dt \<and> year dt \<le> 9999 \<and> 1 \<le> month dt \<and> month dt \<le> 12
     \<and> 1 \<le> day dt \<and> int (day dt) \<le> days_in_month (year dt) (month dt)
     \<and> hour dt < 24 \<and> minute dt < 60 \<and> second dt < 60 \<and> microsecond dt < 1000000"

definition to_microseconds :: "datetime \<Rightarrow> int" where
  "to_microseconds dt =
     (((ymd2ord (year dt) (month dt) (day dt) * 24 + int (hour dt)) * 60 + int (minute dt)) * 60
        + int (second dt)) * 1000000 + int (microsecond dt)"

text \<open>The order of \<^verbatim>\<open>datetime\<close> objects: the field tuples are compared.\<close>

definition datetime_less :: "datetime \<Rightarrow> datetime \<Rightarrow> bool" where
  "datetime_less a b \<longleftrightarrow>
     year a < year b \<or> (year a = year b \<and>
       (month a < month b \<or> (month a = month b \<and>
         (day a < day b \<or> (day a = day b \<and>
           (hour a < hour b \<or> (hour a = hour b \<and>
             (minute a < minute b \<or> (minute a = minute b \<and>
               (second a < second b \<or> (second a = second b \<and>
                 microsecond a < microsecond b)))))))))))"

text \<open>
  Functions of the Python standard library that the script calls and that are not part of
  the repository are parameters of the model: the SHA-256 hex digest of a byte string
  (feeding a hash object chunk by chunk digests the concatenation of the chunks), the gzip
  stream written for a byte string, the decoding of a gzip stream (\<open>None\<close> when
  \<^verbatim>\<open>gzip\<close> raises \<^verbatim>\<open>BadGzipFile\<close>), \<^verbatim>\<open>PurePath.match\<close> for the file at a relative path,
  the floating-point expression \<^verbatim>\<open>round((1 - compressed / total) * 100, 2)\<close>, kept
  in hundredths of a percent, and \<^verbatim>\<open>dt - timedelta(days=n)\<close>.
\<close>

record lib =
  sha256 :: "bytes \<Rightarrow> string"
  gzip_compress :: "bytes \<Rightarrow> bytes"
  gzip_decompress :: "bytes \<Rightarrow> bytes option"
  path_match :: "path \<Rightarrow> string \<Rightarrow> bool"
  float_ratio :: "nat \<Rightarrow> nat \<Rightarrow> int"
  minus_days :: "datetime \<Rightarrow> int \<Rightarrow> datetime"

text \<open>The part of \<^verbatim>\<open>self.config\<close> that the modelled methods read.\<close>

record config =
  retention_days :: int
  compression :: bool
  exclude_patterns :: "string list"

definition default_config :: config where
  "default_config =
     \<lparr>retention_days = 30, compression = True,
      exclude_patterns =
        [''.obsidian/workspace*'', ''.obsidian/hotkeys.json'', ''.obsidian/app.json'',
         ''.DS_Store'', ''*.tmp'', ''__pycache__'']\<rparr>"

section \<open>Exclusion filter\<close>

text \<open>
  \<^verbatim>\<open>should_exclude\<close>: the loop over the patterns returns at the first pattern that
  matches as a glob or whose star-free text occurs in the relative path.
\<close>

fun exclude_loop :: "lib \<Rightarrow> path \<Rightarrow> string list \<Rightarrow> bool" where
  "exclude_loop L p [] = False"
| "exclude_loop L p (pat # pats) =
     (if path_match L p pat \<or> str_find (path_str p) (remove_stars pat) \<noteq> None then True
      else exclude_loop L p pats)"

definition should_exclude :: "lib \<Rightarrow> config \<Rightarrow> path \<Rightarrow> bool" where
  "should_exclude L cfg p = exclude_loop L p (exclude_patterns cfg)"

section \<open>File trees and the backup index\<close>

text \<open>
  A directory tree is the list of its entries in the order in which \<^verbatim>\<open>rglob("*")\<close>
  enumerates them, each with its path relative to the root. The content of a regular file
  is \<open>None\<close> when the process may not read it (\<^verbatim>\<open>open\<close> raises); such a file still
  answers \<^verbatim>\<open>is_file()\<close> and \<^verbatim>\<open>stat()\<close>. Vault files carry their modification time: an
  integer that stands for \<^verbatim>\<open>datetime.fromtimestamp(st_mtime)\<close>, which
  \<^verbatim>\<open>fromisoformat(isoformat(...))\<close> gives back unchanged.
\<close>

datatype vnode = VDir | VFile (content: "bytes option") (mtime: int)

type_synonym vault = "(path \<times> vnode) list"

datatype fnode = Directory | RegFile "bytes option"

type_synonym tree = "(path \<times> fnode) list"

datatype error = MkdirError | ReadError | BadGzipFile | IsADirectoryError

text \<open>
  The two tables of \<^verbatim>\<open>init_database\<close>. \<^verbatim>\<open>file_hashes\<close> has the primary key
  \<^verbatim>\<open>file_path\<close>, so it is a map from that text; \<^verbatim>\<open>last_backup_id\<close> is nullable.
  \<^verbatim>\<open>backups\<close> is kept in insertion order, and \<open>last_id\<close> is the AUTOINCREMENT
  sequence, so that an identifier is never used twice.
\<close>

record file_hash_row =
  last_hash :: string
  last_modified :: int
  last_backup_id :: "nat option"

record backup_meta =
  vault_health_snapshot :: string
  git_commit :: "string option"
  files_copied :: nat
  compression_ratio :: int

record backup_row =
  b_id :: nat
  b_timestamp :: string
  b_type :: string
  b_file_count :: nat
  b_total_size :: nat
  b_compressed_size :: nat
  b_checksum :: string
  b_path :: string
  b_metadata :: backup_meta

record index =
  file_hashes :: "string \<rightharpoonup> file_hash_row"
  backups :: "backup_row list"
  last_id :: nat

text \<open>
  The state the script works on: the index database and the directories under the backup
  root, by the text of their path (\<^verbatim>\<open>Path(backup_path).exists()\<close> is \<open>store s p \<noteq> None\<close>).
\<close>

record state =
  idx :: index
  store :: "string \<rightharpoonup> tree"

text \<open>\<^verbatim>\<open>SELECT ... FROM backups WHERE id = ?\<close> followed by \<^verbatim>\<open>fetchone()\<close>.\<close>

definition get_backup :: "index \<Rightarrow> nat \<Rightarrow> backup_row option" where
  "get_backup i n = find (\<lambda>r. b_id r = n) (backups i)"

section \<open>Content hasher and backup checksum\<close>

text \<open>
  \<^verbatim>\<open>calculate_file_hash\<close> catches every exception of the read and returns the empty
  string then.
\<close>

definition calculate_file_hash :: "lib \<Rightarrow> bytes option \<Rightarrow> string" where
  "calculate_file_hash L c = (case c of None \<Rightarrow> [] | Some b \<Rightarrow> sha256 L b)"

text \<open>
  \<^verbatim>\<open>calculate_backup_checksum\<close> walks \<^verbatim>\<open>sorted(backup_dir.rglob("*"))\<close>; paths under one
  root compare by their components. Directories are skipped; for a regular file the hash
  object is fed the encoded relative path and then the bytes of the file. Nothing catches
  the exception of an unreadable file: the result is \<open>None\<close> then.
\<close>

fun checksum_input :: "tree \<Rightarrow> bytes option" where
  "checksum_input [] = Some []"
| "checksum_input ((p, Directory) # es) = checksum_input es"
| "checksum_input ((p, RegFile None) # es) = None"
| "checksum_input ((p, RegFile (Some b)) # es) =
     map_option (\<lambda>r. path_str p @ b @ r) (checksum_input es)"

definition calculate_backup_checksum :: "lib \<Rightarrow> tree \<Rightarrow> string option" where
  "calculate_backup_checksum L t = map_option (sha256 L) (checksum_input (sort_key fst t))"

section \<open>Verification\<close>

text \<open>
  \<^verbatim>\<open>verify_backup\<close> returns \<open>False\<close> when the row or the directory is missing and
  otherwise compares the recomputed checksum with the stored one; the exception of
  \<^verbatim>\<open>calculate_backup_checksum\<close> is not caught.
\<close>

definition verify_backup :: "lib \<Rightarrow> state \<Rightarrow> nat \<Rightarrow> error + bool" where
  "verify_backup L s n =
     (case get_backup (idx s) n of
        None \<Rightarrow> Inr False
      | Some r \<Rightarrow>
          (case store s (b_path r) of
             None \<Rightarrow> Inr False
           | Some t \<Rightarrow>
               (case calculate_backup_checksum L t of
                  None \<Rightarrow> Inl ReadError
                | Some ck \<Rightarrow> Inr (ck = b_checksum r))))"

text \<open>
  The regular files of a tree with their contents, and what the hash object is fed for a
  sequence of them; both serve to state what the checksum depends on.
\<close>

fun files_of :: "tree \<Rightarrow> (path \<times> bytes option) list" where
  "files_of [] = []"
| "files_of ((p, Directory) # es) = files_of es"
| "files_of ((p, RegFile c) # es) = (p, c) # files_of es"

fun digest_input :: "(path \<times> bytes option) list \<Rightarrow> bytes option" where
  "digest_input [] = Some []"
| "digest_input ((p, None) # fs) = None"
| "digest_input ((p, Some b) # fs) = map_option (\<lambda>r. path_str p @ b @ r) (digest_input fs)"

section \<open>Retention manager\<close>

text \<open>
  \<^verbatim>\<open>cleanup_old_backups\<close> selects the rows whose timestamp text is below the text of the
  cutoff (SQLite compares \<^verbatim>\<open>TEXT\<close> byte by byte) and walks the selected
  \<^verbatim>\<open>(id, backup_path)\<close> pairs. The environment says for which directories
  \<^verbatim>\<open>shutil.rmtree\<close> raises; the exception is caught inside the loop, before the
  \<^verbatim>\<open>DELETE\<close> of that row is reached, and the directory is taken to stay in place.
\<close>

definition delete_backup :: "nat \<Rightarrow> index \<Rightarrow> index" where
  "delete_backup n i = i\<lparr>backups := filter (\<lambda>r. b_id r \<noteq> n) (backups i)\<rparr>"

fun cleanup_loop :: "(string \<Rightarrow> bool) \<Rightarrow> (nat \<times> string) list \<Rightarrow> state \<Rightarrow> state" where
  "cleanup_loop undeletable [] s = s"
| "cleanup_loop undeletable ((n, p) # rest) s =
     (if store s p \<noteq> None then
        (if undeletable p then cleanup_loop undeletable rest s
         else cleanup_loop undeletable rest
                (s\<lparr>store := (store s)(p := None), idx := delete_backup n (idx s)\<rparr>))
      else cleanup_loop undeletable rest (s\<lparr>idx := delete_backup n (idx s)\<rparr>))"

definition old_backups :: "lib \<Rightarrow> config \<Rightarrow> datetime \<Rightarrow> index \<Rightarrow> (nat \<times> string) list" where
  "old_backups L cfg now i =
     (let cutoff_date = minus_days L now (retention_days cfg)
      in map (\<lambda>r. (b_id r, b_path r))
           (filter (\<lambda>r. b_timestamp r < isoformat cutoff_date) (backups i)))"

definition cleanup_old_backups ::
  "lib \<Rightarrow> config \<Rightarrow> datetime \<Rightarrow> (string \<Rightarrow> bool) \<Rightarrow> state \<Rightarrow> state" where
  "cleanup_old_backups L cfg now undeletable s =
     cleanup_loop undeletable (old_backups L cfg now (idx s)) s"

section \<open>Change detector\<close>

text \<open>
  \<^verbatim>\<open>get_changed_files\<close> walks the vault and appends a regular, non-excluded file when it
  has no row in \<^verbatim>\<open>file_hashes\<close>, or when its modification time is later than the recorded
  one and its hash differs from the recorded one. The other backup types take every regular
  file that is not excluded.
\<close>

fun get_changed_files :: "lib \<Rightarrow> config \<Rightarrow> index \<Rightarrow> vault \<Rightarrow> vault" where
  "get_changed_files L cfg i [] = []"
| "get_changed_files L cfg i ((p, VDir) # v) = get_changed_files L cfg i v"
| "get_changed_files L cfg i ((p, VFile c m) # v) =
     (if \<not> should_exclude L cfg p then
        (case file_hashes i (path_str p) of
           Some row \<Rightarrow>
             if last_modified row < m then
               (if calculate_file_hash L c \<noteq> last_hash row
                then (p, VFile c m) # get_changed_files L cfg i v
                else get_changed_files L cfg i v)
             else get_changed_files L cfg i v
         | None \<Rightarrow> (p, VFile c m) # get_changed_files L cfg i v)
      else get_changed_files L cfg i v)"

fun all_files :: "lib \<Rightarrow> config \<Rightarrow> vault \<Rightarrow> vault" where
  "all_files L cfg [] = []"
| "all_files L cfg ((p, VDir) # v) = all_files L cfg v"
| "all_files L cfg ((p, VFile c m) # v) =
     (if \<not> should_exclude L cfg p then (p, VFile c m) # all_files L cfg v
      else all_files L cfg v)"

definition files_to_backup :: "lib \<Rightarrow> config \<Rightarrow> string \<Rightarrow> index \<Rightarrow> vault \<Rightarrow> vault" where
  "files_to_backup L cfg btype i v =
     (if btype = ''incremental'' then get_changed_files L cfg i v else all_files L cfg v)"

section \<open>Writing into a directory tree\<close>

text \<open>
  \<^verbatim>\<open>dest_path.parent.mkdir(parents=True, exist_ok=True)\<close> creates the missing ancestors of
  a path and raises when one of them exists as a regular file. Opening a path for writing
  raises when the path is a directory and otherwise creates the file or replaces its
  content. \<^verbatim>\<open>shutil.copy2\<close> copies into the destination when the destination is a
  directory, under the name of the source, and reads the source before it opens the
  destination.
\<close>

definition parents :: "path \<Rightarrow> path list" where
  "parents p = map (\<lambda>k. take k p) [1..<length p]"

fun mkdirs :: "tree \<Rightarrow> path list \<Rightarrow> tree option" where
  "mkdirs t [] = Some t"
| "mkdirs t (d # ds) =
     (case map_of t d of
        Some (RegFile c) \<Rightarrow> None
      | Some Directory \<Rightarrow> mkdirs t ds
      | None \<Rightarrow> mkdirs (t @ [(d, Directory)]) ds)"

definition write_file :: "tree \<Rightarrow> path \<Rightarrow> bytes \<Rightarrow> error + tree" where
  "write_file t p b =
     (if map_of t p = Some Directory then Inl IsADirectoryError
      else Inr (AList.update p (RegFile (Some b)) t))"

definition copy2 :: "tree \<Rightarrow> path \<Rightarrow> bytes option \<Rightarrow> error + tree" where
  "copy2 t dst c =
     (let d = (if map_of t dst = Some Directory then dst @ [path_name dst] else dst)
      in case c of None \<Rightarrow> Inl ReadError | Some b \<Rightarrow> write_file t d b)"

section \<open>Backup writer\<close>

text \<open>
  The state of the copy loop of \<^verbatim>\<open>create_backup\<close>: the index as the open transaction
  sees it, the backup directory, \<^verbatim>\<open>total_size\<close>, and the files counted by
  \<^verbatim>\<open>copied_files\<close> (the counter is the length of this list).
\<close>

record copy_acc =
  a_index :: index
  a_tree :: tree
  a_total_size :: nat
  a_copied :: "path list"

text \<open>
  The body of the \<^verbatim>\<open>try\<close> up to the end of the copy: a text file is stored compressed
  under the name with \<^verbatim>\<open>.gz\<close> appended, any other file is copied as it is.
\<close>

definition copy_file :: "lib \<Rightarrow> config \<Rightarrow> tree \<Rightarrow> path \<Rightarrow> bytes option \<Rightarrow> error + tree" where
  "copy_file L cfg t p c =
     (if compression cfg \<and> suffix p \<in> set [''.md'', ''.txt'', ''.json''] then
        (case c of
           None \<Rightarrow> Inl ReadError
         | Some b \<Rightarrow> write_file t (add_gz p) (gzip_compress L b))
      else copy2 t p c)"

definition upsert_file_hash :: "string \<Rightarrow> string \<Rightarrow> int \<Rightarrow> index \<Rightarrow> index" where
  "upsert_file_hash k h m i =
     i\<lparr>file_hashes := (file_hashes i)(k \<mapsto>
          \<lparr>last_hash = h, last_modified = m, last_backup_id = None\<rparr>)\<rparr>"

definition file_size :: "bytes option \<Rightarrow> nat" where
  "file_size c = (case c of None \<Rightarrow> 0 | Some b \<Rightarrow> length b)"

text \<open>
  The loop over \<^verbatim>\<open>files_to_backup\<close>. The \<^verbatim>\<open>mkdir\<close> of the parent stands before the
  \<^verbatim>\<open>try\<close>: its exception ends the loop and the method. An exception of the copy is
  caught and the loop goes on with the next file.
\<close>

fun backup_files :: "lib \<Rightarrow> config \<Rightarrow> vault \<Rightarrow> copy_acc \<Rightarrow> copy_acc \<times> error option" where
  "backup_files L cfg [] a = (a, None)"
| "backup_files L cfg ((p, VDir) # fs) a =
     (case mkdirs (a_tree a) (parents p) of
        None \<Rightarrow> (a, Some MkdirError)
      | Some t \<Rightarrow> backup_files L cfg fs (a\<lparr>a_tree := t\<rparr>))"
| "backup_files L cfg ((p, VFile c m) # fs) a =
     (case mkdirs (a_tree a) (parents p) of
        None \<Rightarrow> (a, Some MkdirError)
      | Some t \<Rightarrow>
          (case copy_file L cfg t p c of
             Inl e \<Rightarrow> backup_files L cfg fs (a\<lparr>a_tree := t\<rparr>)
           | Inr t' \<Rightarrow>
               backup_files L cfg fs
                 \<lparr>a_index = upsert_file_hash (path_str p) (calculate_file_hash L c) m (a_index a),
                  a_tree = t',
                  a_total_size = a_total_size a + file_size c,
                  a_copied = a_copied a @ [p]\<rparr>))"

text \<open>
  What a run reads from outside the vault walk: the backup root, the health snapshot and
  the git revision that go into the metadata.
\<close>

record run_env =
  backup_root :: string
  health_snapshot :: string
  git_head :: "string option"

definition backup_dir :: "run_env \<Rightarrow> datetime \<Rightarrow> string" where
  "backup_dir E now = backup_root E @ ''/backup_'' @ colons_to_hyphens (isoformat now)"

text \<open>
  The first \<^verbatim>\<open>with sqlite3.connect(...)\<close> block: the directory is created if it does not
  exist (\<^verbatim>\<open>exist_ok=True\<close> keeps an existing one with its content) and the files are copied.
\<close>

definition run_copy ::
  "lib \<Rightarrow> config \<Rightarrow> run_env \<Rightarrow> string \<Rightarrow> datetime \<Rightarrow> vault \<Rightarrow> state \<Rightarrow> copy_acc \<times> error option" where
  "run_copy L cfg E btype now v s =
     backup_files L cfg (files_to_backup L cfg btype (idx s) v)
       \<lparr>a_index = idx s,
        a_tree = (case store s (backup_dir E now) of None \<Rightarrow> [] | Some t \<Rightarrow> t),
        a_total_size = 0,
        a_copied = []\<rparr>"

fun tree_size :: "tree \<Rightarrow> nat" where
  "tree_size [] = 0"
| "tree_size ((p, Directory) # es) = tree_size es"
| "tree_size ((p, RegFile c) # es) = file_size c + tree_size es"

text \<open>
  The dictionary that \<^verbatim>\<open>create_backup\<close> returns; the sizes are kept in bytes (the script
  reports them in megabytes, rounded in floating point).
\<close>

record backup_info =
  i_id :: nat
  i_timestamp :: string
  i_type :: string
  i_file_count :: nat
  i_total_size :: nat
  i_compressed_size :: nat
  i_compression_ratio :: int
  i_checksum :: string
  i_path :: string

text \<open>
  \<^verbatim>\<open>create_backup\<close>. An exception inside the first \<^verbatim>\<open>with\<close> block rolls its
  transaction back; the files written so far stay on disk. After the block has committed,
  the checksum is computed, and the row is inserted by a second connection.
\<close>

definition create_backup ::
  "lib \<Rightarrow> config \<Rightarrow> run_env \<Rightarrow> string \<Rightarrow> datetime \<Rightarrow> vault \<Rightarrow> state
     \<Rightarrow> (error + backup_info) \<times> state" where
  "create_backup L cfg E btype now v s =
     (let timestamp = isoformat now;
          dir = backup_dir E now;
          (a, err) = run_copy L cfg E btype now v s;
          st = (store s)(dir \<mapsto> a_tree a)
      in case err of
           Some e \<Rightarrow> (Inl e, \<lparr>idx = idx s, store = st\<rparr>)
         | None \<Rightarrow>
             (case calculate_backup_checksum L (a_tree a) of
                None \<Rightarrow> (Inl ReadError, \<lparr>idx = a_index a, store = st\<rparr>)
              | Some backup_checksum \<Rightarrow>
                  let compressed_size = tree_size (a_tree a);
                      total_size = a_total_size a;
                      copied_files = length (a_copied a);
                      ratio = (if total_size > 0 then float_ratio L compressed_size total_size
                               else 0);
                      new_id = Suc (last_id (a_index a));
                      row = \<lparr>b_id = new_id, b_timestamp = timestamp, b_type = btype,
                             b_file_count = copied_files, b_total_size = total_size,
                             b_compressed_size = compressed_size, b_checksum = backup_checksum,
                             b_path = dir,
                             b_metadata = \<lparr>vault_health_snapshot = health_snapshot E,
                               git_commit = git_head E, files_copied = copied_files,
                               compression_ratio = ratio\<rparr>\<rparr>
                  in (Inr \<lparr>i_id = new_id, i_timestamp = timestamp, i_type = btype,
                            i_file_count = copied_files, i_total_size = total_size,
                            i_compressed_size = compressed_size, i_compression_ratio = ratio,
                            i_checksum = backup_checksum, i_path = dir\<rparr>,
                      \<lparr>idx = (a_index a)\<lparr>backups := backups (a_index a) @ [row],
                                           last_id := new_id\<rparr>,
                       store = st\<rparr>)))"

text \<open>
  The content of the index file when the process is killed during a run. SQLite rolls an
  uncommitted transaction back, so what is left is what the last commit wrote: nothing of
  the run while the copy loop is under way, the upserts of the loop once the first
  \<^verbatim>\<open>with\<close> block is left, and the inserted row as well once the second one is left.
\<close>

datatype run_point = InCopyLoop | BetweenTransactions | AfterRowInsert

definition index_if_killed ::
  "lib \<Rightarrow> config \<Rightarrow> run_env \<Rightarrow> string \<Rightarrow> datetime \<Rightarrow> vault \<Rightarrow> state \<Rightarrow> run_point \<Rightarrow> index" where
  "index_if_killed L cfg E btype now v s pt =
     (case pt of
        InCopyLoop \<Rightarrow> idx s
      | BetweenTransactions \<Rightarrow>
          (case snd (run_copy L cfg E btype now v s) of
             None \<Rightarrow> a_index (fst (run_copy L cfg E btype now v s))
           | Some e \<Rightarrow> idx s)
      | AfterRowInsert \<Rightarrow> idx (snd (create_backup L cfg E btype now v s)))"

section \<open>Restore engine\<close>

text \<open>
  \<^verbatim>\<open>restore_backup\<close> returns \<open>False\<close> when the row or the directory is missing.
  Otherwise it walks the backup directory in enumeration order; nothing catches an
  exception there. A file whose suffix is \<^verbatim>\<open>.gz\<close> is decompressed into the path without
  that suffix: the destination is opened (and emptied) before the first read, which is
  where a stream that is not gzip raises. Any other file is copied with \<^verbatim>\<open>copy2\<close>.
\<close>

fun restore_files :: "lib \<Rightarrow> tree \<Rightarrow> tree \<Rightarrow> (error + bool) \<times> tree" where
  "restore_files L [] d = (Inr True, d)"
| "restore_files L ((p, Directory) # es) d = restore_files L es d"
| "restore_files L ((p, RegFile c) # es) d =
     (case mkdirs d (parents p) of
        None \<Rightarrow> (Inl MkdirError, d)
      | Some d1 \<Rightarrow>
          if suffix p = ''.gz'' then
            (case c of
               None \<Rightarrow> (Inl ReadError, d1)
             | Some z \<Rightarrow>
                 (case write_file d1 (with_suffix_empty p) [] of
                    Inl e \<Rightarrow> (Inl e, d1)
                  | Inr d2 \<Rightarrow>
                      (case gzip_decompress L z of
                         None \<Rightarrow> (Inl BadGzipFile, d2)
                       | Some b \<Rightarrow>
                           restore_files L es
                             (AList.update (with_suffix_empty p) (RegFile (Some b)) d2))))
          else
            (case copy2 d1 p c of
               Inl e \<Rightarrow> (Inl e, d1)
             | Inr d2 \<Rightarrow> restore_files L es d2))"

definition restore_backup :: "lib \<Rightarrow> state \<Rightarrow> nat \<Rightarrow> tree \<Rightarrow> (error + bool) \<times> tree" where
  "restore_backup L s n d =
     (case get_backup (idx s) n of
        None \<Rightarrow> (Inr False, d)
      | Some r \<Rightarrow>
          (case store s (b_path r) of
             None \<Rightarrow> (Inr False, d)
           | Some t \<Rightarrow> restore_files L t d))"

section \<open>Concrete inputs\<close>

text \<open>
  An instance of the library parameters on which the model can be run: the digest is the
  input behind a tag, a gzip stream is the input behind a two-byte magic, no glob matches,
  and days are subtracted in the day field, which is the date arithmetic of Python as long
  as the result stays in the same month.
\<close>

definition demo_lib :: lib where
  "demo_lib =
     \<lparr>sha256 = (\<lambda>b. ''sha:'' @ b),
      gzip_compress = (\<lambda>b. ''GZ'' @ b),
      gzip_decompress = (\<lambda>z. if take 2 z = ''GZ'' then Some (drop 2 z) else None),
      path_match = (\<lambda>_ _. False),
      float_ratio = (\<lambda>c t. ((int t - int c) * 10000) div int t),
      minus_days = (\<lambda>dt n. dt\<lparr>day := nat (int (day dt) - n)\<rparr>)\<rparr>"

definition demo_meta :: backup_meta where
  "demo_meta = \<lparr>vault_health_snapshot = ''{}'', git_commit = None, files_copied = 1,
     compression_ratio = 0\<rparr>"

definition demo_row :: "nat \<Rightarrow> string \<Rightarrow> string \<Rightarrow> string \<Rightarrow> backup_row" where
  "demo_row n ts ck dir =
     \<lparr>b_id = n, b_timestamp = ts, b_type = ''full'', b_file_count = 1, b_total_size = 1,
      b_compressed_size = 1, b_checksum = ck, b_path = dir, b_metadata = demo_meta\<rparr>"

definition demo_state :: "backup_row list \<Rightarrow> (string \<times> tree) list \<Rightarrow> state" where
  "demo_state rows dirs =
     \<lparr>idx = \<lparr>file_hashes = Map.empty, backups = rows, last_id = length rows\<rparr>,
      store = map_of dirs\<rparr>"

definition demo_now :: datetime where
  "demo_now = \<lparr>year = 2024, month = 5, day = 31, hour = 12, minute = 0, second = 0,
     microsecond = 0\<rparr>"

definition demo_env :: run_env where
  "demo_env = \<lparr>backup_root = ''/backups'', health_snapshot = ''{}'', git_head = None\<rparr>"

definition empty_state :: state where
  "empty_state = \<lparr>idx = \<lparr>file_hashes = Map.empty, backups = [], last_id = 0\<rparr>, store = Map.empty\<rparr>"

section \<open>Properties of the exclusion filter\<close>

lemma str_find_occurs:
  "str_find s sub \<noteq> None \<longleftrightarrow> (\<exists>u v. s = u @ sub @ v)"
proof (induction s)
  case Nil
  then show ?case by auto
next
  case (Cons c s)
  show ?case
  proof (cases "take (length sub) (c # s) = sub")
    case True
    then have "c # s = [] @ sub @ drop (length sub) (c # s)"
      by (metis append_Nil append_take_drop_id)
    with True show ?thesis by (metis str_find.simps(2) option.distinct(1))
  next
    case False
    have "(\<exists>u v. c # s = u @ sub @ v) \<longleftrightarrow> (\<exists>u v. s = u @ sub @ v)"
    proof
      assume "\<exists>u v. c # s = u @ sub @ v"
      then obtain u v where uv: "c # s = u @ sub @ v" by blast
      show "\<exists>u v. s = u @ sub @ v"
      proof (cases u)
        case Nil
        with uv have "take (length sub) (c # s) = sub" by simp
        with False show ?thesis by simp
      next
        case (Cons a u')
        with uv have "s = u' @ sub @ v" by simp
        then show ?thesis by blast
      qed
    next
      assume "\<exists>u v. s = u @ sub @ v"
      then obtain u v where "s = u @ sub @ v" by blast
      then have "c # s = (c # u) @ sub @ v" by simp
      then show "\<exists>u v. c # s = u @ sub @ v" by blast
    qed
    with False Cons.IH show ?thesis by simp
  qed
qed

lemma exclude_loop_substring:
  "pat \<in> set pats \<Longrightarrow> str_find (path_str p) (remove_stars pat) \<noteq> None
     \<Longrightarrow> exclude_loop L p pats"
  by (induction pats) auto

text \<open>
  Claim C9. \<^verbatim>\<open>should_exclude\<close> returns true for every path whose relative path contains,
  as a plain substring, some exclude pattern with all its stars removed, whatever the glob
  match says; with the default patterns and a glob match that fails everywhere, the path
  \<^verbatim>\<open>notes.tmpx.md\<close> is excluded through the pattern \<^verbatim>\<open>*.tmp\<close>.
\<close>

theorem should_exclude_star_free_substring:
  "(pat \<in> set (exclude_patterns cfg) \<and> path_str p = u @ remove_stars pat @ v
      \<longrightarrow> should_exclude L cfg p)
   \<and> should_exclude (L\<lparr>path_match := \<lambda>_ _. False\<rparr>) default_config [''notes.tmpx.md'']"
proof
  show "pat \<in> set (exclude_patterns cfg) \<and> path_str p = u @ remove_stars pat @ v
          \<longrightarrow> should_exclude L cfg p"
    unfolding should_exclude_def
    using exclude_loop_substring str_find_occurs by blast
  show "should_exclude (L\<lparr>path_match := \<lambda>_ _. False\<rparr>) default_config [''notes.tmpx.md'']"
    by (simp add: should_exclude_def default_config_def remove_stars_def)
qed

theorem should_exclude_star_free_substring_witness:
  "''*.tmp'' \<in> set (exclude_patterns default_config)
   \<and> path_str [''notes.tmpx.md''] = ''notes'' @ remove_stars ''*.tmp'' @ ''x.md''
   \<and> should_exclude demo_lib default_config [''notes.tmpx.md'']"
proof -
  have h: "''*.tmp'' \<in> set (exclude_patterns default_config)
      \<and> path_str [''notes.tmpx.md''] = ''notes'' @ remove_stars ''*.tmp'' @ ''x.md''"
    by (simp add: default_config_def remove_stars_def)
  with should_exclude_star_free_substring
    [of "''*.tmp''" default_config "[''notes.tmpx.md'']" "''notes''" "''x.md''" demo_lib]
  show ?thesis by blast
qed

section \<open>Properties of the backup checksum\<close>

lemma checksum_input_files_of: "checksum_input t = digest_input (files_of t)"
  by (induction t rule: checksum_input.induct) auto

lemma set_files_of: "set (files_of t) = {(p, c). (p, RegFile c) \<in> set t}"
  by (induction t rule: files_of.induct) auto

lemma files_of_insort:
  "sorted (map fst t) \<Longrightarrow> files_of (insort_key fst (p, n) t) =
     (case n of Directory \<Rightarrow> files_of t | RegFile c \<Rightarrow> insort_key fst (p, c) (files_of t))"
proof (induction t rule: files_of.induct)
  case 1
  then show ?case by (simp split: fnode.splits)
next
  case (2 q es)
  then show ?case
    by (force split: fnode.splits simp: set_files_of intro!: insort_is_Cons [symmetric])
next
  case (3 q c es)
  then show ?case by (auto split: fnode.splits)
qed

lemma files_of_sort: "files_of (sort_key fst t) = sort_key fst (files_of t)"
proof (induction t rule: files_of.induct)
  case 1
  then show ?case by simp
next
  case (2 p es)
  then show ?case by (simp add: files_of_insort sorted_sort_key)
next
  case (3 p c es)
  then show ?case by (simp add: files_of_insort sorted_sort_key)
qed

lemma distinct_files_of: "distinct (map fst t) \<Longrightarrow> distinct (map fst (files_of t))"
  by (induction t rule: files_of.induct) (auto simp: set_files_of image_iff)

lemma filter_key_single:
  "distinct (map fst l) \<Longrightarrow> k \<in> set l \<Longrightarrow> filter (\<lambda>x. fst k = fst x) l = [k]"
proof (induction l)
  case Nil
  then show ?case by simp
next
  case (Cons a l)
  show ?case
  proof (cases "k = a")
    case True
    with Cons.prems have "filter (\<lambda>x. fst k = fst x) l = []"
      by (auto simp: filter_empty_conv image_iff)
    with True show ?thesis by simp
  next
    case False
    with Cons.prems have "k \<in> set l" "fst k \<noteq> fst a"
      by (auto simp: image_iff)
    with Cons show ?thesis by simp
  qed
qed

lemma sort_key_unique:
  assumes "distinct (map fst xs)" "distinct (map fst ys)" "set xs = set ys"
  shows "sort_key fst xs = sort_key fst ys"
proof (rule properties_for_sort_key)
  from assms have "distinct xs" "distinct ys" by (auto dest: distinct_map [THEN iffD1])
  with assms(3) have m: "mset xs = mset ys" by (simp add: set_eq_iff_mset_eq_distinct)
  then show "mset (sort_key fst ys) = mset xs" by simp
  show "sorted (map fst (sort_key fst ys))" by (rule sorted_sort_key)
  fix k assume k: "k \<in> set (sort_key fst ys)"
  have "mset (map fst (sort_key fst ys)) = mset (map fst ys)" by simp
  with assms(2) have "distinct (map fst (sort_key fst ys))"
    by (metis mset_eq_imp_distinct_iff)
  then have "filter (\<lambda>x. fst k = fst x) (sort_key fst ys) = [k]"
    using k by (rule filter_key_single)
  moreover from k assms have "filter (\<lambda>x. fst k = fst x) xs = [k]"
    by (intro filter_key_single) auto
  ultimately show "filter (\<lambda>x. fst k = fst x) (sort_key fst ys) = filter (\<lambda>x. fst k = fst x) xs"
    by simp
qed

lemma digest_input_readable:
  "\<forall>(p, c) \<in> set fs. c \<noteq> None \<Longrightarrow>
     digest_input fs = Some (concat (map (\<lambda>(p, c). path_str p @ the c) fs))"
  by (induction fs rule: digest_input.induct) auto

lemma digest_input_None: "digest_input fs = None \<longleftrightarrow> (\<exists>p. (p, None) \<in> set fs)"
  by (induction fs rule: digest_input.induct) auto

text \<open>
  Claim C6. The checksum is the digest of the sequence, sorted by relative path, of the
  relative paths and contents of the regular files. Hence two enumerations of directories
  that hold the same relative paths with the same contents have the same checksum, in
  whatever order the entries are listed and whatever subdirectories are listed with them.
\<close>

theorem checksum_order_independent:
  "(distinct (map fst t1) \<and> distinct (map fst t2) \<and> set (files_of t1) = set (files_of t2)
      \<longrightarrow> calculate_backup_checksum L t1 = calculate_backup_checksum L t2)
   \<and> ((\<forall>(p, c) \<in> set (files_of t1). c \<noteq> None) \<longrightarrow>
        calculate_backup_checksum L t1 =
          Some (sha256 L (concat (map (\<lambda>(p, c). path_str p @ the c) (sort_key fst (files_of t1))))))"
proof (intro conjI impI)
  assume a: "distinct (map fst t1) \<and> distinct (map fst t2) \<and> set (files_of t1) = set (files_of t2)"
  then have "sort_key fst (files_of t1) = sort_key fst (files_of t2)"
    by (intro sort_key_unique distinct_files_of) auto
  then show "calculate_backup_checksum L t1 = calculate_backup_checksum L t2"
    by (simp add: calculate_backup_checksum_def checksum_input_files_of files_of_sort)
next
  assume "\<forall>(p, c) \<in> set (files_of t1). c \<noteq> None"
  then have "\<forall>(p, c) \<in> set (sort_key fst (files_of t1)). c \<noteq> None" by simp
  then show "calculate_backup_checksum L t1 =
          Some (sha256 L (concat (map (\<lambda>(p, c). path_str p @ the c) (sort_key fst (files_of t1)))))"
    by (simp add: calculate_backup_checksum_def checksum_input_files_of files_of_sort
        digest_input_readable)
qed

theorem checksum_order_independent_witness:
  "distinct (map fst [([''b.bin''], RegFile (Some ''x'')), ([''a''], Directory),
       ([''a'', ''c.md.gz''], RegFile (Some ''y''))])
   \<and> distinct (map fst [([''a'', ''c.md.gz''], RegFile (Some ''y'')), ([''b.bin''], RegFile (Some ''x''))])
   \<and> calculate_backup_checksum demo_lib [([''b.bin''], RegFile (Some ''x'')), ([''a''], Directory),
       ([''a'', ''c.md.gz''], RegFile (Some ''y''))]
     = calculate_backup_checksum demo_lib
         [([''a'', ''c.md.gz''], RegFile (Some ''y'')), ([''b.bin''], RegFile (Some ''x''))]
   \<and> calculate_backup_checksum demo_lib [([''b.bin''], RegFile (Some ''x'')), ([''a''], Directory),
       ([''a'', ''c.md.gz''], RegFile (Some ''y''))] = Some ''sha:a/c.md.gzyb.binx''"
proof -
  let ?t1 = "[([''b.bin''], RegFile (Some ''x'')), ([''a''], Directory),
       ([''a'', ''c.md.gz''], RegFile (Some ''y''))]"
  let ?t2 = "[([''a'', ''c.md.gz''], RegFile (Some ''y'')), ([''b.bin''], RegFile (Some ''x''))]"
  have h: "distinct (map fst ?t1) \<and> distinct (map fst ?t2) \<and> set (files_of ?t1) = set (files_of ?t2)"
    by (simp add: insert_commute)
  have r: "\<forall>(p, c) \<in> set (files_of ?t1). c \<noteq> None" by simp
  have v: "sha256 demo_lib (concat (map (\<lambda>(p, c). path_str p @ the c) (sort_key fst (files_of ?t1))))
      = ''sha:a/c.md.gzyb.binx''"
    by code_simp
  have e: "calculate_backup_checksum demo_lib ?t1 = calculate_backup_checksum demo_lib ?t2"
    using checksum_order_independent [of ?t1 ?t2 demo_lib] h by blast
  have "calculate_backup_checksum demo_lib ?t1 =
      Some (sha256 demo_lib (concat (map (\<lambda>(p, c). path_str p @ the c) (sort_key fst (files_of ?t1)))))"
    using checksum_order_independent [of ?t1 ?t2 demo_lib] r by blast
  with v have f: "calculate_backup_checksum demo_lib ?t1 = Some ''sha:a/c.md.gzyb.binx''"
    by simp
  from h e f show ?thesis by blast
qed

section \<open>Properties of verification\<close>

lemma checksum_None_iff:
  "calculate_backup_checksum L t = None \<longleftrightarrow> (\<exists>p. (p, RegFile None) \<in> set t)"
  by (simp add: calculate_backup_checksum_def checksum_input_files_of files_of_sort
      digest_input_None set_files_of)

text \<open>
  Claim C4, as the code has it. \<^verbatim>\<open>verify_backup\<close> returns true exactly when the row
  exists, its directory exists and the recomputed checksum equals the stored one. It
  returns false when the row is absent, when the directory is missing and when the
  recomputed checksum differs. When a file of the directory cannot be read, the exception
  of the read leaves \<^verbatim>\<open>verify_backup\<close>: nothing is returned.
\<close>

theorem verify_backup_outcomes:
  "(verify_backup L s n = Inr True \<longleftrightarrow>
      (\<exists>r t. get_backup (idx s) n = Some r \<and> store s (b_path r) = Some t
             \<and> calculate_backup_checksum L t = Some (b_checksum r)))
   \<and> (get_backup (idx s) n = None \<longrightarrow> verify_backup L s n = Inr False)
   \<and> (\<forall>r. get_backup (idx s) n = Some r \<and> store s (b_path r) = None
          \<longrightarrow> verify_backup L s n = Inr False)
   \<and> (\<forall>r t ck. get_backup (idx s) n = Some r \<and> store s (b_path r) = Some t
          \<and> calculate_backup_checksum L t = Some ck \<and> ck \<noteq> b_checksum r
          \<longrightarrow> verify_backup L s n = Inr False)
   \<and> (\<forall>r t p. get_backup (idx s) n = Some r \<and> store s (b_path r) = Some t
          \<and> (p, RegFile None) \<in> set t
          \<longrightarrow> verify_backup L s n = Inl ReadError)"
proof (intro conjI allI impI)
  show "verify_backup L s n = Inr True \<longleftrightarrow>
      (\<exists>r t. get_backup (idx s) n = Some r \<and> store s (b_path r) = Some t
             \<and> calculate_backup_checksum L t = Some (b_checksum r))"
    by (auto simp: verify_backup_def split: option.splits)
next
  assume "get_backup (idx s) n = None"
  then show "verify_backup L s n = Inr False" by (simp add: verify_backup_def)
next
  fix r assume "get_backup (idx s) n = Some r \<and> store s (b_path r) = None"
  then show "verify_backup L s n = Inr False" by (simp add: verify_backup_def)
next
  fix r t ck
  assume "get_backup (idx s) n = Some r \<and> store s (b_path r) = Some t
          \<and> calculate_backup_checksum L t = Some ck \<and> ck \<noteq> b_checksum r"
  then show "verify_backup L s n = Inr False" by (simp add: verify_backup_def)
next
  fix r t p
  assume a: "get_backup (idx s) n = Some r \<and> store s (b_path r) = Some t
          \<and> (p, RegFile None) \<in> set t"
  then have "calculate_backup_checksum L t = None" using checksum_None_iff by blast
  with a show "verify_backup L s n = Inl ReadError" by (simp add: verify_backup_def)
qed

theorem verify_backup_unreadable_counterexample:
  "get_backup (idx (demo_state [demo_row 1 ''t'' ''sha:'' ''b1''] [(''b1'', [([''f''], RegFile None)])])) 1
     = Some (demo_row 1 ''t'' ''sha:'' ''b1'')
   \<and> store (demo_state [demo_row 1 ''t'' ''sha:'' ''b1''] [(''b1'', [([''f''], RegFile None)])]) ''b1''
     = Some [([''f''], RegFile None)]
   \<and> verify_backup demo_lib
        (demo_state [demo_row 1 ''t'' ''sha:'' ''b1''] [(''b1'', [([''f''], RegFile None)])]) 1
      \<noteq> Inr False"
  by (simp add: verify_backup_def get_backup_def demo_state_def demo_row_def
      calculate_backup_checksum_def)

theorem verify_backup_outcomes_witness:
  "verify_backup demo_lib
      (demo_state [demo_row 1 ''t'' ''sha:fx'' ''b1''] [(''b1'', [([''f''], RegFile (Some ''x''))])]) 1
     = Inr True
   \<and> verify_backup demo_lib (demo_state [] []) 1 = Inr False
   \<and> verify_backup demo_lib (demo_state [demo_row 1 ''t'' ''sha:fx'' ''b1''] []) 1 = Inr False
   \<and> verify_backup demo_lib
      (demo_state [demo_row 1 ''t'' ''sha:fx'' ''b1''] [(''b1'', [([''f''], RegFile (Some ''y''))])]) 1
     = Inr False
   \<and> verify_backup demo_lib
      (demo_state [demo_row 1 ''t'' ''sha:fx'' ''b1''] [(''b1'', [([''f''], RegFile None)])]) 1
     = Inl ReadError"
proof (intro conjI)
  let ?r = "demo_row 1 ''t'' ''sha:fx'' ''b1''"
  let ?s1 = "demo_state [?r] [(''b1'', [([''f''], RegFile (Some ''x''))])]"
  have "get_backup (idx ?s1) 1 = Some ?r \<and> store ?s1 (b_path ?r) = Some [([''f''], RegFile (Some ''x''))]
      \<and> calculate_backup_checksum demo_lib [([''f''], RegFile (Some ''x''))] = Some (b_checksum ?r)"
    by (simp add: get_backup_def demo_state_def demo_row_def calculate_backup_checksum_def
        demo_lib_def)
  with verify_backup_outcomes [of demo_lib ?s1 1]
  show "verify_backup demo_lib ?s1 1 = Inr True" by blast
next
  have "get_backup (idx (demo_state [] [])) 1 = None"
    by (simp add: get_backup_def demo_state_def)
  with verify_backup_outcomes [of demo_lib "demo_state [] []" 1]
  show "verify_backup demo_lib (demo_state [] []) 1 = Inr False" by blast
next
  let ?r = "demo_row 1 ''t'' ''sha:fx'' ''b1''"
  let ?s = "demo_state [?r] []"
  have "get_backup (idx ?s) 1 = Some ?r \<and> store ?s (b_path ?r) = None"
    by (simp add: get_backup_def demo_state_def demo_row_def)
  with verify_backup_outcomes [of demo_lib ?s 1]
  show "verify_backup demo_lib ?s 1 = Inr False" by blast
next
  let ?r = "demo_row 1 ''t'' ''sha:fx'' ''b1''"
  let ?s = "demo_state [?r] [(''b1'', [([''f''], RegFile (Some ''y''))])]"
  have "get_backup (idx ?s) 1 = Some ?r \<and> store ?s (b_path ?r) = Some [([''f''], RegFile (Some ''y''))]
      \<and> calculate_backup_checksum demo_lib [([''f''], RegFile (Some ''y''))] = Some ''sha:fy''
      \<and> ''sha:fy'' \<noteq> b_checksum ?r"
    by (simp add: get_backup_def demo_state_def demo_row_def calculate_backup_checksum_def
        demo_lib_def)
  with verify_backup_outcomes [of demo_lib ?s 1]
  show "verify_backup demo_lib ?s 1 = Inr False" by blast
next
  let ?r = "demo_row 1 ''t'' ''sha:fx'' ''b1''"
  let ?s = "demo_state [?r] [(''b1'', [([''f''], RegFile None)])]"
  have "get_backup (idx ?s) 1 = Some ?r \<and> store ?s (b_path ?r) = Some [([''f''], RegFile None)]
      \<and> ([''f''], RegFile None) \<in> set [([''f''], RegFile None)]"
    by (simp add: get_backup_def demo_state_def demo_row_def)
  with verify_backup_outcomes [of demo_lib ?s 1]
  show "verify_backup demo_lib ?s 1 = Inl ReadError" by blast
qed

section \<open>Properties of the retention manager\<close>

lemma cleanup_loop_backups:
  "backups (idx (cleanup_loop und xs s)) =
     filter (\<lambda>r. \<not> (\<exists>p. (b_id r, p) \<in> set xs \<and> \<not> (store s p \<noteq> None \<and> und p)))
       (backups (idx s))"
proof (induction xs arbitrary: s)
  case Nil
  then show ?case by simp
next
  case (Cons x xs)
  obtain n p where x: "x = (n, p)" by (cases x)
  show ?case
  proof (cases "store s p \<noteq> None")
    case True
    show ?thesis
    proof (cases "und p")
      case u: True
      have "filter (\<lambda>r. \<not> (\<exists>q. (b_id r, q) \<in> set ((n, p) # xs) \<and> \<not> (store s q \<noteq> None \<and> und q)))
              (backups (idx s))
            = filter (\<lambda>r. \<not> (\<exists>q. (b_id r, q) \<in> set xs \<and> \<not> (store s q \<noteq> None \<and> und q)))
              (backups (idx s))"
        using True u by (intro filter_cong) auto
      with True u show ?thesis by (simp add: x Cons.IH)
    next
      case u: False
      let ?s1 = "s\<lparr>store := (store s)(p := None), idx := delete_backup n (idx s)\<rparr>"
      have blocked: "(store ?s1 q \<noteq> None \<and> und q) \<longleftrightarrow> (store s q \<noteq> None \<and> und q)" for q
        using u by auto
      have "backups (idx (cleanup_loop und (x # xs) s)) = backups (idx (cleanup_loop und xs ?s1))"
        using True u by (simp add: x)
      also have "\<dots> = filter (\<lambda>r. \<not> (\<exists>q. (b_id r, q) \<in> set xs \<and> \<not> (store s q \<noteq> None \<and> und q)))
              (filter (\<lambda>r. b_id r \<noteq> n) (backups (idx s)))"
        unfolding Cons.IH blocked by (simp add: delete_backup_def)
      also have "\<dots> = filter (\<lambda>r. \<not> (\<exists>q. (b_id r, q) \<in> set (x # xs) \<and> \<not> (store s q \<noteq> None \<and> und q)))
              (backups (idx s))"
        unfolding filter_filter using u by (intro filter_cong) (auto simp: x)
      finally show ?thesis .
    qed
  next
    case False
    let ?s1 = "s\<lparr>idx := delete_backup n (idx s)\<rparr>"
    have "backups (idx (cleanup_loop und (x # xs) s)) = backups (idx (cleanup_loop und xs ?s1))"
      using False by (simp add: x)
    also have "\<dots> = filter (\<lambda>r. \<not> (\<exists>q. (b_id r, q) \<in> set xs \<and> \<not> (store s q \<noteq> None \<and> und q)))
              (filter (\<lambda>r. b_id r \<noteq> n) (backups (idx s)))"
      unfolding Cons.IH by (simp add: delete_backup_def)
    also have "\<dots> = filter (\<lambda>r. \<not> (\<exists>q. (b_id r, q) \<in> set (x # xs) \<and> \<not> (store s q \<noteq> None \<and> und q)))
              (backups (idx s))"
      unfolding filter_filter using False by (intro filter_cong) (auto simp: x)
    finally show ?thesis .
  qed
qed

lemma cleanup_loop_store:
  "store (cleanup_loop und xs s) q =
     (if q \<in> snd ` set xs \<and> \<not> und q then None else store s q)"
proof (induction xs arbitrary: s q)
  case Nil
  then show ?case by simp
next
  case (Cons x xs)
  obtain n p where x: "x = (n, p)" by (cases x)
  show ?case by (auto simp: x Cons.IH)
qed

lemma cleanup_row_deleted_iff:
  assumes "distinct (map b_id (backups (idx s)))" and "r \<in> set (backups (idx s))"
  shows "r \<notin> set (backups (idx (cleanup_old_backups L cfg now und s))) \<longleftrightarrow>
           b_timestamp r < isoformat (minus_days L now (retention_days cfg))
           \<and> \<not> (store s (b_path r) \<noteq> None \<and> und (b_path r))"
proof -
  have same: "r' = r" if "r' \<in> set (backups (idx s))" "b_id r' = b_id r" for r'
    using assms that by (meson distinct_map inj_onD)
  let ?old = "\<lambda>r. b_timestamp r < isoformat (minus_days L now (retention_days cfg))"
  have mem: "(n, p) \<in> set (old_backups L cfg now (idx s)) \<longleftrightarrow>
      (\<exists>r' \<in> set (backups (idx s)). ?old r' \<and> n = b_id r' \<and> p = b_path r')" for n p
    by (auto simp: old_backups_def image_iff)
  have "(\<exists>p. (b_id r, p) \<in> set (old_backups L cfg now (idx s)) \<and> \<not> (store s p \<noteq> None \<and> und p))
      \<longleftrightarrow> ?old r \<and> \<not> (store s (b_path r) \<noteq> None \<and> und (b_path r))" (is "?lhs \<longleftrightarrow> ?rhs")
  proof
    assume ?lhs
    then obtain p r' where "r' \<in> set (backups (idx s))" "?old r'" "b_id r = b_id r'"
      "p = b_path r'" "\<not> (store s p \<noteq> None \<and> und p)"
      unfolding mem by blast
    moreover from this have "r' = r" using same by simp
    ultimately show ?rhs by simp
  next
    assume ?rhs
    with assms(2) show ?lhs unfolding mem by blast
  qed
  with assms(2) show ?thesis
    by (simp add: cleanup_old_backups_def cleanup_loop_backups)
qed

lemma cleanup_store:
  assumes "r \<in> set (backups (idx s))"
    and "b_timestamp r < isoformat (minus_days L now (retention_days cfg))"
  shows "store (cleanup_old_backups L cfg now und s) (b_path r) =
           (if und (b_path r) then store s (b_path r) else None)"
proof -
  from assms have "b_path r \<in> snd ` set (old_backups L cfg now (idx s))"
    by (force simp: old_backups_def image_iff)
  then show ?thesis by (simp add: cleanup_old_backups_def cleanup_loop_store)
qed

text \<open>
  Claim C8. For a row selected by the cutoff: when its directory exists and cannot be
  removed, the row stays in the index and the directory stays on disk; in every other case
  (the directory was already absent, or its removal succeeded) the row is deleted and the
  directory is gone, whatever happened to the other selected rows. So a row is deleted
  only after a successful removal or for an absent directory, and a failure stops nothing.
\<close>

theorem cleanup_removal_failure_keeps_row:
  "distinct (map b_id (backups (idx s))) \<Longrightarrow> r \<in> set (backups (idx s))
   \<Longrightarrow> b_timestamp r < isoformat (minus_days L now (retention_days cfg))
   \<Longrightarrow> (store s (b_path r) \<noteq> None \<and> undeletable (b_path r)
          \<longrightarrow> r \<in> set (backups (idx (cleanup_old_backups L cfg now undeletable s)))
              \<and> store (cleanup_old_backups L cfg now undeletable s) (b_path r) \<noteq> None)
       \<and> (\<not> (store s (b_path r) \<noteq> None \<and> undeletable (b_path r))
          \<longrightarrow> r \<notin> set (backups (idx (cleanup_old_backups L cfg now undeletable s)))
              \<and> store (cleanup_old_backups L cfg now undeletable s) (b_path r) = None)"
  using cleanup_row_deleted_iff [of s r L cfg now undeletable]
    cleanup_store [of r s L now cfg undeletable]
  by auto
theorem cleanup_removal_failure_keeps_row_witness:
  "demo_row 1 ''2024-04-01T10:00:00'' ''c'' ''b1''
     \<in> set (backups (idx (cleanup_old_backups demo_lib default_config demo_now (\<lambda>p. p = ''b1'')
           (demo_state [demo_row 1 ''2024-04-01T10:00:00'' ''c'' ''b1'',
                        demo_row 2 ''2024-04-02T10:00:00.000123'' ''c'' ''b2'']
              [(''b1'', []), (''b2'', [])]))))
   \<and> demo_row 2 ''2024-04-02T10:00:00.000123'' ''c'' ''b2''
     \<notin> set (backups (idx (cleanup_old_backups demo_lib default_config demo_now (\<lambda>p. p = ''b1'')
           (demo_state [demo_row 1 ''2024-04-01T10:00:00'' ''c'' ''b1'',
                        demo_row 2 ''2024-04-02T10:00:00.000123'' ''c'' ''b2'']
              [(''b1'', []), (''b2'', [])]))))"
proof -
  let ?r1 = "demo_row 1 ''2024-04-01T10:00:00'' ''c'' ''b1''"
  let ?r2 = "demo_row 2 ''2024-04-02T10:00:00.000123'' ''c'' ''b2''"
  let ?s = "demo_state [?r1, ?r2] [(''b1'', []), (''b2'', [])]"
  let ?und = "\<lambda>p. p = ''b1''"
  have d: "distinct (map b_id (backups (idx ?s)))"
    by (simp add: demo_state_def demo_row_def)
  have m1: "?r1 \<in> set (backups (idx ?s))" and m2: "?r2 \<in> set (backups (idx ?s))"
    by (simp_all add: demo_state_def)
  have o1: "b_timestamp ?r1 < isoformat (minus_days demo_lib demo_now (retention_days default_config))"
    by code_simp
  have o2: "b_timestamp ?r2 < isoformat (minus_days demo_lib demo_now (retention_days default_config))"
    by code_simp
  have b1: "store ?s (b_path ?r1) \<noteq> None \<and> ?und (b_path ?r1)"
    by (simp add: demo_state_def demo_row_def)
  have b2: "\<not> (store ?s (b_path ?r2) \<noteq> None \<and> ?und (b_path ?r2))"
    by (simp add: demo_state_def demo_row_def)
  from cleanup_removal_failure_keeps_row [OF d m1 o1, of ?und] b1
    cleanup_removal_failure_keeps_row [OF d m2 o2, of ?und] b2
  show ?thesis by blast
qed

section \<open>Properties of the backup writer\<close>

lemma backup_files_rows:
  "backups (a_index (fst (backup_files L cfg fs a))) = backups (a_index a)
   \<and> last_id (a_index (fst (backup_files L cfg fs a))) = last_id (a_index a)"
  by (induction L cfg fs a rule: backup_files.induct)
    (auto simp: upsert_file_hash_def split: option.splits sum.splits)

lemma create_backup_file_hashes:
  "file_hashes (idx (snd (create_backup L cfg E btype now v s))) =
     (case snd (run_copy L cfg E btype now v s) of
        None \<Rightarrow> file_hashes (a_index (fst (run_copy L cfg E btype now v s)))
      | Some e \<Rightarrow> file_hashes (idx s))"
  by (simp add: create_backup_def Let_def split: option.splits prod.splits)

lemma backup_files_last_backup_id:
  "file_hashes (a_index (fst (backup_files L cfg fs a))) k = Some row
   \<Longrightarrow> file_hashes (a_index a) k \<noteq> Some row \<Longrightarrow> last_backup_id row = None"
proof (induction L cfg fs a rule: backup_files.induct)
  case (1 L cfg a)
  then show ?case by simp
next
  case (2 L cfg p fs a)
  then show ?case by (auto split: option.splits)
next
  case (3 L cfg p c m fs a)
  show ?case
  proof (cases "mkdirs (a_tree a) (parents p)")
    case None
    with "3.prems" show ?thesis by simp
  next
    case (Some t)
    show ?thesis
    proof (cases "copy_file L cfg t p c")
      case (Inl e)
      with "3.IH"(1) [OF Some Inl] "3.prems" Some show ?thesis by simp
    next
      case (Inr t')
      let ?a1 = "\<lparr>a_index = upsert_file_hash (path_str p) (calculate_file_hash L c) m (a_index a),
                  a_tree = t', a_total_size = a_total_size a + file_size c,
                  a_copied = a_copied a @ [p]\<rparr>"
      from "3.prems"(1) Some Inr
      have f: "file_hashes (a_index (fst (backup_files L cfg fs ?a1))) k = Some row" by simp
      show ?thesis
      proof (cases "file_hashes (a_index ?a1) k = Some row")
        case True
        with "3.prems"(2) show ?thesis
          by (auto simp: upsert_file_hash_def split: if_splits)
      next
        case False
        with "3.IH"(2) [OF Some Inr f] show ?thesis by simp
      qed
    qed
  qed
qed

text \<open>
  Whatever the run, a \<^verbatim>\<open>file_hashes\<close> row that is in the index after a run and was not
  there before has no \<^verbatim>\<open>last_backup_id\<close>.
\<close>

lemma create_backup_rows_without_backup_id:
  "file_hashes (idx (snd (create_backup L cfg E btype now v s))) k = Some row
   \<Longrightarrow> file_hashes (idx s) k \<noteq> Some row \<Longrightarrow> last_backup_id row = None"
  using backup_files_last_backup_id [of L cfg "files_to_backup L cfg btype (idx s) v"
      "\<lparr>a_index = idx s,
        a_tree = (case store s (backup_dir E now) of None \<Rightarrow> [] | Some t \<Rightarrow> t),
        a_total_size = 0, a_copied = []\<rparr>" k row]
  by (simp add: create_backup_file_hashes run_copy_def split: option.splits)

text \<open>
  Claim C1, as the code has it. The upserts of a run are written in one transaction and
  the row of the run in a second, later one. A run that is killed leaves the index in the
  state before the run, or in the state after the run, or, between the two transactions,
  with every upsert of the run (the \<^verbatim>\<open>file_hashes\<close> table of the finished run) and
  with the \<^verbatim>\<open>backups\<close> table as it was before the run.
\<close>

theorem index_if_killed_three_states:
  "index_if_killed L cfg E btype now v s pt = idx s
   \<or> index_if_killed L cfg E btype now v s pt = idx (snd (create_backup L cfg E btype now v s))
   \<or> (pt = BetweenTransactions
       \<and> file_hashes (index_if_killed L cfg E btype now v s pt)
           = file_hashes (idx (snd (create_backup L cfg E btype now v s)))
       \<and> backups (index_if_killed L cfg E btype now v s pt) = backups (idx s)
       \<and> last_id (index_if_killed L cfg E btype now v s pt) = last_id (idx s))"
proof (cases pt)
  case InCopyLoop
  then show ?thesis by (simp add: index_if_killed_def)
next
  case AfterRowInsert
  then show ?thesis by (simp add: index_if_killed_def)
next
  case BetweenTransactions
  obtain a err where r: "run_copy L cfg E btype now v s = (a, err)"
    by (cases "run_copy L cfg E btype now v s")
  show ?thesis
  proof (cases err)
    case (Some e)
    with r BetweenTransactions show ?thesis by (simp add: index_if_killed_def)
  next
    case None
    have "backups (a_index a) = backups (idx s) \<and> last_id (a_index a) = last_id (idx s)"
      using backup_files_rows [of L cfg "files_to_backup L cfg btype (idx s) v"
          "\<lparr>a_index = idx s,
            a_tree = (case store s (backup_dir E now) of None \<Rightarrow> [] | Some t \<Rightarrow> t),
            a_total_size = 0, a_copied = []\<rparr>"] r
      by (simp add: run_copy_def)
    moreover have "file_hashes (idx (snd (create_backup L cfg E btype now v s)))
        = file_hashes (a_index a)"
      using r None by (simp add: create_backup_def Let_def split: option.splits)
    ultimately show ?thesis
      using r None BetweenTransactions by (simp add: index_if_killed_def)
  qed
qed

theorem index_if_killed_three_states_witness:
  "file_hashes (index_if_killed demo_lib default_config demo_env ''full'' demo_now
       [([''a.md''], VFile (Some ''abc'') 7)] empty_state BetweenTransactions)
     = file_hashes (idx (snd (create_backup demo_lib default_config demo_env ''full'' demo_now
         [([''a.md''], VFile (Some ''abc'') 7)] empty_state)))
   \<and> backups (index_if_killed demo_lib default_config demo_env ''full'' demo_now
       [([''a.md''], VFile (Some ''abc'') 7)] empty_state BetweenTransactions)
     = backups (idx empty_state)"
proof -
  let ?v = "[([''a.md''], VFile (Some ''abc'') 7)]"
  let ?i = "index_if_killed demo_lib default_config demo_env ''full'' demo_now ?v empty_state
      BetweenTransactions"
  have "file_hashes ?i ''a.md'' \<noteq> file_hashes (idx empty_state) ''a.md''" by code_simp
  then have n1: "?i \<noteq> idx empty_state" by auto
  have "backups ?i \<noteq> backups (idx (snd (create_backup demo_lib default_config demo_env ''full''
      demo_now ?v empty_state)))" by code_simp
  then have n2: "?i \<noteq> idx (snd (create_backup demo_lib default_config demo_env ''full''
      demo_now ?v empty_state))" by auto
  from index_if_killed_three_states [of demo_lib default_config demo_env "''full''" demo_now ?v
      empty_state BetweenTransactions] n1 n2
  show ?thesis by blast
qed

text \<open>
  A full backup of one file, killed between the two transactions: the index holds the
  upsert of the run, which the index before the run did not hold, and it has no row for
  the run, which the finished run inserts.
\<close>

theorem create_backup_kill_between_transactions_counterexample:
  "file_hashes (index_if_killed demo_lib default_config demo_env ''full'' demo_now
       [([''a.md''], VFile (Some ''abc'') 7)] empty_state BetweenTransactions) ''a.md''
     = Some \<lparr>last_hash = ''sha:abc'', last_modified = 7, last_backup_id = None\<rparr>
   \<and> file_hashes (idx empty_state) ''a.md'' = None
   \<and> backups (index_if_killed demo_lib default_config demo_env ''full'' demo_now
       [([''a.md''], VFile (Some ''abc'') 7)] empty_state BetweenTransactions) = []
   \<and> map b_id (backups (idx (snd (create_backup demo_lib default_config demo_env ''full'' demo_now
       [([''a.md''], VFile (Some ''abc'') 7)] empty_state)))) = [1]"
  by code_simp

text \<open>
  Claim C2, evaluated on the code. After a full backup of one file into an empty index the
  run has the row with identifier 1, and the \<^verbatim>\<open>file_hashes\<close> row that the run inserted
  has no \<^verbatim>\<open>last_backup_id\<close>: the \<^verbatim>\<open>INSERT OR REPLACE\<close> names three columns only.
\<close>

theorem create_backup_last_backup_id_null:
  "file_hashes (idx (snd (create_backup demo_lib default_config demo_env ''full'' demo_now
       [([''a.md''], VFile (Some ''abc'') 7)] empty_state))) ''a.md''
     = Some \<lparr>last_hash = ''sha:abc'', last_modified = 7, last_backup_id = None\<rparr>
   \<and> map b_id (backups (idx (snd (create_backup demo_lib default_config demo_env ''full'' demo_now
       [([''a.md''], VFile (Some ''abc'') 7)] empty_state)))) = [1]"
  by code_simp

section \<open>Properties of the restore engine\<close>

text \<open>
  Claim C3, evaluated on the code. A vault file named \<^verbatim>\<open>data.gz\<close> is not one of the
  compressed kinds, so a full backup copies it as it is. The restore takes every
  \<^verbatim>\<open>.gz\<close> file for one that the writer compressed: when the bytes are a gzip stream it
  writes the decoded bytes to \<^verbatim>\<open>data\<close>, and when they are not it raises after it has
  created an empty \<^verbatim>\<open>data\<close>. In both cases the destination has no \<^verbatim>\<open>data.gz\<close>.
\<close>

theorem restore_loses_gz_source_file:
  "a_copied (fst (run_copy demo_lib default_config demo_env ''full'' demo_now
       [([''data.gz''], VFile (Some ''GZhello'') 5)] empty_state)) = [[''data.gz'']]
   \<and> restore_backup demo_lib
       (snd (create_backup demo_lib default_config demo_env ''full'' demo_now
          [([''data.gz''], VFile (Some ''GZhello'') 5)] empty_state)) 1 []
     = (Inr True, [([''data''], RegFile (Some ''hello''))])
   \<and> restore_backup demo_lib
       (snd (create_backup demo_lib default_config demo_env ''full'' demo_now
          [([''data.gz''], VFile (Some ''hello'') 5)] empty_state)) 1 []
     = (Inl BadGzipFile, [([''data''], RegFile (Some []))])"
  by code_simp

section \<open>Properties of the change detector\<close>

lemma get_changed_files_iff:
  "(p, VFile c m) \<in> set (get_changed_files L cfg i v) \<longleftrightarrow>
     (p, VFile c m) \<in> set v \<and> \<not> should_exclude L cfg p
     \<and> (case file_hashes i (path_str p) of
          None \<Rightarrow> True
        | Some row \<Rightarrow> last_modified row < m \<and> calculate_file_hash L c \<noteq> last_hash row)"
  by (induction L cfg i v rule: get_changed_files.induct) (auto split: option.splits)

lemma get_changed_files_subset: "set (get_changed_files L cfg i v) \<subseteq> set v"
  by (induction L cfg i v rule: get_changed_files.induct) (auto split: option.splits)

lemma get_changed_files_distinct:
  "distinct (map f v) \<Longrightarrow> distinct (map f (get_changed_files L cfg i v))"
proof (induction L cfg i v rule: get_changed_files.induct)
  case (1 L cfg i)
  then show ?case by simp
next
  case (2 L cfg i p v)
  then show ?case by simp
next
  case (3 L cfg i p c m v)
  have "f (p, VFile c m) \<notin> f ` set (get_changed_files L cfg i v)"
    using "3.prems" get_changed_files_subset [of L cfg i v] by auto
  with 3 show ?case by (auto split: option.splits)
qed

lemma backup_files_untouched:
  "k \<notin> (\<lambda>e. path_str (fst e)) ` set fs \<Longrightarrow>
     file_hashes (a_index (fst (backup_files L cfg fs a))) k = file_hashes (a_index a) k"
  by (induction L cfg fs a rule: backup_files.induct)
    (auto simp: upsert_file_hash_def split: option.splits sum.splits)

lemma backup_files_copied_subset:
  "set (a_copied (fst (backup_files L cfg fs a))) \<subseteq> set (a_copied a) \<union> fst ` set fs"
  by (induction L cfg fs a rule: backup_files.induct)
    (auto split: option.splits sum.splits)

lemma backup_files_copied_row:
  "distinct (map (\<lambda>e. path_str (fst e)) fs) \<Longrightarrow> (p, VFile c m) \<in> set fs
   \<Longrightarrow> p \<in> set (a_copied (fst (backup_files L cfg fs a))) \<Longrightarrow> p \<notin> set (a_copied a)
   \<Longrightarrow> file_hashes (a_index (fst (backup_files L cfg fs a))) (path_str p)
        = Some \<lparr>last_hash = calculate_file_hash L c, last_modified = m, last_backup_id = None\<rparr>"
proof (induction L cfg fs a rule: backup_files.induct)
  case (1 L cfg a)
  then show ?case by simp
next
  case (2 L cfg q fs a)
  then show ?case by (auto split: option.splits)
next
  case (3 L cfg q c' m' fs a)
  from "3.prems"(1) have d: "distinct (map (\<lambda>e. path_str (fst e)) fs)"
    and nq: "path_str q \<notin> (\<lambda>e. path_str (fst e)) ` set fs" by auto
  show ?case
  proof (cases "mkdirs (a_tree a) (parents q)")
    case None
    with "3.prems" show ?thesis by simp
  next
    case (Some t)
    show ?thesis
    proof (cases "copy_file L cfg t q c'")
      case (Inl e)
      let ?a1 = "a\<lparr>a_tree := t\<rparr>"
      have res: "backup_files L cfg ((q, VFile c' m') # fs) a = backup_files L cfg fs ?a1"
        using Some Inl by simp
      show ?thesis
      proof (cases "(p, VFile c m) \<in> set fs")
        case True
        with "3.IH"(1) [OF Some Inl d True] "3.prems" res show ?thesis by simp
      next
        case False
        with "3.prems"(2) have "p = q" by simp
        with nq have "p \<notin> fst ` set fs" by force
        with backup_files_copied_subset [of L cfg fs ?a1] "3.prems"(3,4) res
        show ?thesis by auto
      qed
    next
      case (Inr t')
      let ?a1 = "\<lparr>a_index = upsert_file_hash (path_str q) (calculate_file_hash L c') m' (a_index a),
                  a_tree = t', a_total_size = a_total_size a + file_size c',
                  a_copied = a_copied a @ [q]\<rparr>"
      have res: "backup_files L cfg ((q, VFile c' m') # fs) a = backup_files L cfg fs ?a1"
        using Some Inr by simp
      show ?thesis
      proof (cases "(p, VFile c m) \<in> set fs")
        case True
        with nq have "path_str p \<noteq> path_str q" by force
        then have "p \<notin> set (a_copied ?a1)" using "3.prems"(4) by auto
        with "3.IH"(2) [OF Some Inr d True] "3.prems"(3) res show ?thesis by simp
      next
        case False
        with "3.prems"(2) have pq: "p = q" "c = c'" "m = m'" by simp_all
        from nq have "file_hashes (a_index (fst (backup_files L cfg fs ?a1))) (path_str q)
            = file_hashes (a_index ?a1) (path_str q)"
          by (rule backup_files_untouched)
        with res pq show ?thesis by (simp add: upsert_file_hash_def)
      qed
    qed
  qed
qed

text \<open>
  Claim C5, as the code has it. A regular, non-excluded file with no row is in the changed
  set. One whose modification time is later than the recorded one is in the changed set
  exactly when its fresh hash differs from the recorded one. A file that an incremental run
  did not select, or that the run copied (so that its row was upserted and committed), is
  not in the changed set of a following run in which it has the same bytes and the same
  modification time. A file that the first run selected and failed to copy has no such
  guarantee.
\<close>

theorem get_changed_files_selection:
  "((p, VFile c m) \<in> set v \<and> \<not> should_exclude L cfg p \<and> file_hashes i (path_str p) = None
      \<longrightarrow> (p, VFile c m) \<in> set (get_changed_files L cfg i v))
   \<and> ((p, VFile c m) \<in> set v \<and> \<not> should_exclude L cfg p
        \<and> file_hashes i (path_str p) = Some row \<and> last_modified row < m
      \<longrightarrow> ((p, VFile c m) \<in> set (get_changed_files L cfg i v)
            \<longleftrightarrow> calculate_file_hash L c \<noteq> last_hash row))
   \<and> (distinct (map (\<lambda>e. path_str (fst e)) v) \<and> (p, VFile c m) \<in> set v
        \<and> ((p, VFile c m) \<notin> set (get_changed_files L cfg (idx s) v)
            \<or> (snd (run_copy L cfg E ''incremental'' now v s) = None
                \<and> p \<in> set (a_copied (fst (run_copy L cfg E ''incremental'' now v s)))))
      \<longrightarrow> (p, VFile c m) \<notin> set (get_changed_files L cfg
              (idx (snd (create_backup L cfg E ''incremental'' now v s))) v'))"
proof (intro conjI impI)
  assume "(p, VFile c m) \<in> set v \<and> \<not> should_exclude L cfg p \<and> file_hashes i (path_str p) = None"
  then show "(p, VFile c m) \<in> set (get_changed_files L cfg i v)"
    by (simp add: get_changed_files_iff)
next
  assume "(p, VFile c m) \<in> set v \<and> \<not> should_exclude L cfg p
        \<and> file_hashes i (path_str p) = Some row \<and> last_modified row < m"
  then show "(p, VFile c m) \<in> set (get_changed_files L cfg i v)
            \<longleftrightarrow> calculate_file_hash L c \<noteq> last_hash row"
    by (simp add: get_changed_files_iff)
next
  let ?fs = "get_changed_files L cfg (idx s) v"
  let ?a0 = "\<lparr>a_index = idx s,
       a_tree = (case store s (backup_dir E now) of None \<Rightarrow> [] | Some t \<Rightarrow> t),
       a_total_size = 0, a_copied = []\<rparr>"
  let ?i1 = "idx (snd (create_backup L cfg E ''incremental'' now v s))"
  assume a: "distinct (map (\<lambda>e. path_str (fst e)) v) \<and> (p, VFile c m) \<in> set v
        \<and> ((p, VFile c m) \<notin> set ?fs
            \<or> (snd (run_copy L cfg E ''incremental'' now v s) = None
                \<and> p \<in> set (a_copied (fst (run_copy L cfg E ''incremental'' now v s)))))"
  have rc: "run_copy L cfg E ''incremental'' now v s = backup_files L cfg ?fs ?a0"
    by (simp add: run_copy_def files_to_backup_def)
  have inj: "e = (p, VFile c m)" if "e \<in> set v" "path_str (fst e) = path_str p" for e
    using a that by (metis (mono_tags, lifting) distinct_map fst_conv inj_onD)
  show "(p, VFile c m) \<notin> set (get_changed_files L cfg ?i1 v')"
  proof (cases "(p, VFile c m) \<in> set ?fs")
    case False
    have "path_str p \<notin> (\<lambda>e. path_str (fst e)) ` set ?fs"
    proof
      assume "path_str p \<in> (\<lambda>e. path_str (fst e)) ` set ?fs"
      then obtain e where e: "e \<in> set ?fs" "path_str (fst e) = path_str p" by auto
      with get_changed_files_subset have "e \<in> set v" by blast
      with e inj have "e = (p, VFile c m)" by simp
      with e False show False by simp
    qed
    then have "file_hashes (a_index (fst (backup_files L cfg ?fs ?a0))) (path_str p)
        = file_hashes (idx s) (path_str p)"
      using backup_files_untouched [of "path_str p" ?fs L cfg ?a0] by simp
    then have "file_hashes ?i1 (path_str p) = file_hashes (idx s) (path_str p)"
      by (simp add: create_backup_file_hashes rc split: option.splits)
    with False a show ?thesis by (simp add: get_changed_files_iff)
  next
    case True
    with a have ok: "snd (backup_files L cfg ?fs ?a0) = None"
      and cp: "p \<in> set (a_copied (fst (backup_files L cfg ?fs ?a0)))"
      by (simp_all add: rc)
    from a have "distinct (map (\<lambda>e. path_str (fst e)) ?fs)"
      by (simp add: get_changed_files_distinct)
    from backup_files_copied_row [OF this True cp]
    have "file_hashes (a_index (fst (backup_files L cfg ?fs ?a0))) (path_str p)
        = Some \<lparr>last_hash = calculate_file_hash L c, last_modified = m, last_backup_id = None\<rparr>"
      by simp
    with ok have "file_hashes ?i1 (path_str p)
        = Some \<lparr>last_hash = calculate_file_hash L c, last_modified = m, last_backup_id = None\<rparr>"
      by (simp add: create_backup_file_hashes rc)
    then show ?thesis by (simp add: get_changed_files_iff)
  qed
qed
text \<open>
  A new file that cannot be read is selected by the first incremental run, fails to copy
  and gets no row; unmodified, it is selected again by the next run.
\<close>

theorem get_changed_files_unreadable_counterexample:
  "\<not> should_exclude demo_lib default_config [''a.md'']
   \<and> ([''a.md''], VFile None 5)
       \<in> set (get_changed_files demo_lib default_config (idx empty_state)
                [([''a.md''], VFile None 5)])
   \<and> ([''a.md''], VFile None 5)
       \<in> set (get_changed_files demo_lib default_config
                (idx (snd (create_backup demo_lib default_config demo_env ''incremental'' demo_now
                       [([''a.md''], VFile None 5)] empty_state)))
                [([''a.md''], VFile None 5)])"
  by code_simp

theorem get_changed_files_selection_witness:
  "([''a.md''], VFile (Some ''abc'') 7)
       \<in> set (get_changed_files demo_lib default_config (idx empty_state)
                [([''a.md''], VFile (Some ''abc'') 7)])
   \<and> (([''a.md''], VFile (Some ''abc'') 7)
       \<in> set (get_changed_files demo_lib default_config
                ((idx empty_state)\<lparr>file_hashes := [''a.md'' \<mapsto>
                    \<lparr>last_hash = ''sha:old'', last_modified = 5, last_backup_id = None\<rparr>]\<rparr>)
                [([''a.md''], VFile (Some ''abc'') 7)])
      \<longleftrightarrow> calculate_file_hash demo_lib (Some ''abc'') \<noteq> ''sha:old'')
   \<and> ([''a.md''], VFile (Some ''abc'') 7)
       \<notin> set (get_changed_files demo_lib default_config
                (idx (snd (create_backup demo_lib default_config demo_env ''incremental'' demo_now
                       [([''a.md''], VFile (Some ''abc'') 7)] empty_state)))
                [([''b.md''], VFile (Some ''new'') 9), ([''a.md''], VFile (Some ''abc'') 7)])"
proof -
  let ?p = "[''a.md'']"
  let ?v = "[(?p, VFile (Some ''abc'') 7)]"
  let ?row = "\<lparr>last_hash = ''sha:old'', last_modified = 5, last_backup_id = None\<rparr>"
  let ?i = "(idx empty_state)\<lparr>file_hashes := [''a.md'' \<mapsto> ?row]\<rparr>"
  let ?v' = "[([''b.md''], VFile (Some ''new'') 9), (?p, VFile (Some ''abc'') 7)]"
  have ne: "\<not> should_exclude demo_lib default_config ?p" by code_simp
  have h1: "(?p, VFile (Some ''abc'') 7) \<in> set ?v \<and> \<not> should_exclude demo_lib default_config ?p
      \<and> file_hashes (idx empty_state) (path_str ?p) = None"
    using ne by (simp add: empty_state_def)
  have h2: "(?p, VFile (Some ''abc'') 7) \<in> set ?v \<and> \<not> should_exclude demo_lib default_config ?p
      \<and> file_hashes ?i (path_str ?p) = Some ?row \<and> last_modified ?row < 7"
    using ne by simp
  have cp: "snd (run_copy demo_lib default_config demo_env ''incremental'' demo_now ?v empty_state) = None
      \<and> ?p \<in> set (a_copied (fst (run_copy demo_lib default_config demo_env ''incremental''
            demo_now ?v empty_state)))"
    by code_simp
  have h3: "distinct (map (\<lambda>e. path_str (fst e)) ?v) \<and> (?p, VFile (Some ''abc'') 7) \<in> set ?v
      \<and> ((?p, VFile (Some ''abc'') 7) \<notin> set (get_changed_files demo_lib default_config (idx empty_state) ?v)
          \<or> (snd (run_copy demo_lib default_config demo_env ''incremental'' demo_now ?v empty_state) = None
              \<and> ?p \<in> set (a_copied (fst (run_copy demo_lib default_config demo_env ''incremental''
                    demo_now ?v empty_state)))))"
    using cp by simp
  from get_changed_files_selection [where p = ?p and c = "Some ''abc''" and m = 7 and v = ?v
      and L = demo_lib and cfg = default_config and i = "idx empty_state" and s = empty_state
      and E = demo_env and now = demo_now and v' = ?v'] h1 h3
  have c1: "(?p, VFile (Some ''abc'') 7) \<in> set (get_changed_files demo_lib default_config (idx empty_state) ?v)"
    and c3: "(?p, VFile (Some ''abc'') 7) \<notin> set (get_changed_files demo_lib default_config
        (idx (snd (create_backup demo_lib default_config demo_env ''incremental'' demo_now ?v empty_state))) ?v')"
    by blast+
  from get_changed_files_selection [where p = ?p and c = "Some ''abc''" and m = 7 and v = ?v
      and L = demo_lib and cfg = default_config and i = ?i and row = ?row] h2
  have c2: "(?p, VFile (Some ''abc'') 7) \<in> set (get_changed_files demo_lib default_config ?i ?v)
      \<longleftrightarrow> calculate_file_hash demo_lib (Some ''abc'') \<noteq> last_hash ?row"
    by blast
  from c1 c2 c3 show ?thesis by simp
qed

section \<open>Backups in which nothing is copied\<close>

lemma files_of_append: "files_of (t @ u) = files_of t @ files_of u"
  by (induction t rule: files_of.induct) auto

lemma mkdirs_no_files:
  "files_of t = [] \<Longrightarrow> \<exists>t'. mkdirs t ds = Some t' \<and> files_of t' = []"
proof (induction ds arbitrary: t)
  case Nil
  then show ?case by simp
next
  case (Cons d ds)
  show ?case
  proof (cases "map_of t d")
    case None
    with Cons.IH [of "t @ [(d, Directory)]"] Cons.prems show ?thesis
      by (simp add: files_of_append)
  next
    case (Some n)
    show ?thesis
    proof (cases n)
      case Directory
      with Some Cons show ?thesis by simp
    next
      case (RegFile c)
      with Some have "(d, RegFile c) \<in> set t" by (simp add: map_of_SomeD)
      then have "(d, c) \<in> set (files_of t)" by (simp add: set_files_of)
      with Cons.prems show ?thesis by simp
    qed
  qed
qed

lemma backup_files_copied_length:
  "length (a_copied a) \<le> length (a_copied (fst (backup_files L cfg fs a)))"
proof (induction L cfg fs a rule: backup_files.induct)
  case (1 L cfg a)
  then show ?case by simp
next
  case (2 L cfg p fs a)
  then show ?case by (auto split: option.splits)
next
  case (3 L cfg p c m fs a)
  show ?case
  proof (cases "mkdirs (a_tree a) (parents p)")
    case None
    then show ?thesis by simp
  next
    case (Some t)
    show ?thesis
    proof (cases "copy_file L cfg t p c")
      case (Inl e)
      with "3.IH"(1) [OF Some Inl] Some show ?thesis by simp
    next
      case (Inr t')
      with "3.IH"(2) [OF Some Inr] Some show ?thesis by simp
    qed
  qed
qed

lemma backup_files_nothing_copied:
  "files_of (a_tree a) = [] \<Longrightarrow> a_copied (fst (backup_files L cfg fs a)) = []
   \<Longrightarrow> snd (backup_files L cfg fs a) = None
       \<and> files_of (a_tree (fst (backup_files L cfg fs a))) = []
       \<and> a_index (fst (backup_files L cfg fs a)) = a_index a
       \<and> a_total_size (fst (backup_files L cfg fs a)) = a_total_size a"
proof (induction L cfg fs a rule: backup_files.induct)
  case (1 L cfg a)
  then show ?case by simp
next
  case (2 L cfg p fs a)
  from mkdirs_no_files [OF "2.prems"(1)] obtain t
    where t: "mkdirs (a_tree a) (parents p) = Some t" "files_of t = []" by blast
  with "2.IH" [OF t(1)] "2.prems" show ?case by simp
next
  case (3 L cfg p c m fs a)
  from mkdirs_no_files [OF "3.prems"(1)] obtain t
    where t: "mkdirs (a_tree a) (parents p) = Some t" "files_of t = []" by blast
  show ?case
  proof (cases "copy_file L cfg t p c")
    case (Inl e)
    with "3.IH"(1) [OF t(1) Inl] t "3.prems" show ?thesis by simp
  next
    case (Inr t')
    let ?a1 = "\<lparr>a_index = upsert_file_hash (path_str p) (calculate_file_hash L c) m (a_index a),
                a_tree = t', a_total_size = a_total_size a + file_size c,
                a_copied = a_copied a @ [p]\<rparr>"
    from backup_files_copied_length [of ?a1 L cfg fs]
    have "a_copied (fst (backup_files L cfg fs ?a1)) \<noteq> []" by auto
    with t Inr "3.prems"(2) show ?thesis by simp
  qed
qed

lemma checksum_no_files:
  "files_of t = [] \<Longrightarrow> calculate_backup_checksum L t = Some (sha256 L [])"
  by (simp add: calculate_backup_checksum_def checksum_input_files_of files_of_sort)

lemma tree_size_no_files: "files_of t = [] \<Longrightarrow> tree_size t = 0"
  by (induction t rule: files_of.induct) auto

text \<open>
  Claim C10. Let the directory of the run hold no regular file before the run (it is new,
  being named after the time of the run). When no file is selected, or no selected file is
  copied, \<^verbatim>\<open>create_backup\<close> returns normally: the ratio is the guarded 0, the index is
  the one before the run with one more row, whose file count and sizes are 0 and whose
  checksum is the digest of the empty input, which is the checksum of the empty directory.
\<close>

theorem create_backup_nothing_copied:
  "files_of (case store s (backup_dir E now) of None \<Rightarrow> [] | Some t \<Rightarrow> t) = []
   \<Longrightarrow> files_to_backup L cfg btype (idx s) v = []
       \<or> a_copied (fst (run_copy L cfg E btype now v s)) = []
   \<Longrightarrow> create_backup L cfg E btype now v s =
        (Inr \<lparr>i_id = Suc (last_id (idx s)), i_timestamp = isoformat now, i_type = btype,
               i_file_count = 0, i_total_size = 0, i_compressed_size = 0,
               i_compression_ratio = 0, i_checksum = sha256 L [], i_path = backup_dir E now\<rparr>,
         \<lparr>idx = (idx s)\<lparr>backups := backups (idx s) @
                   [\<lparr>b_id = Suc (last_id (idx s)), b_timestamp = isoformat now, b_type = btype,
                     b_file_count = 0, b_total_size = 0, b_compressed_size = 0,
                     b_checksum = sha256 L [], b_path = backup_dir E now,
                     b_metadata = \<lparr>vault_health_snapshot = health_snapshot E,
                       git_commit = git_head E, files_copied = 0, compression_ratio = 0\<rparr>\<rparr>],
                 last_id := Suc (last_id (idx s))\<rparr>,
           store = (store s)(backup_dir E now \<mapsto> a_tree (fst (run_copy L cfg E btype now v s)))\<rparr>)
       \<and> calculate_backup_checksum L [] = Some (sha256 L [])"
proof -
  let ?t0 = "case store s (backup_dir E now) of None \<Rightarrow> [] | Some t \<Rightarrow> t"
  let ?a0 = "\<lparr>a_index = idx s, a_tree = ?t0, a_total_size = 0, a_copied = []\<rparr>"
  let ?fs = "files_to_backup L cfg btype (idx s) v"
  assume empty: "files_of ?t0 = []"
    and none: "?fs = [] \<or> a_copied (fst (run_copy L cfg E btype now v s)) = []"
  have rc: "run_copy L cfg E btype now v s = backup_files L cfg ?fs ?a0"
    by (simp add: run_copy_def)
  from none have nc: "a_copied (fst (backup_files L cfg ?fs ?a0)) = []"
    by (auto simp: rc)
  from empty have "files_of (a_tree ?a0) = []" by simp
  from backup_files_nothing_copied [OF this nc] nc
  obtain a where a: "run_copy L cfg E btype now v s = (a, None)" "files_of (a_tree a) = []"
    "a_index a = idx s" "a_total_size a = 0" "a_copied a = []"
    by (cases "run_copy L cfg E btype now v s") (auto simp: rc)
  then show ?thesis
    by (simp add: create_backup_def Let_def checksum_no_files tree_size_no_files)
qed

theorem create_backup_nothing_copied_witness:
  "(case fst (create_backup demo_lib default_config demo_env ''full'' demo_now
        [([''d''], VDir), ([''d'', ''x.md''], VFile None 3)] empty_state) of
      Inl e \<Rightarrow> False
    | Inr info \<Rightarrow> i_file_count info = 0 \<and> i_compression_ratio info = 0
        \<and> i_checksum info = ''sha:'')
   \<and> (case fst (create_backup demo_lib default_config demo_env ''incremental'' demo_now [] empty_state) of
      Inl e \<Rightarrow> False
    | Inr info \<Rightarrow> i_file_count info = 0 \<and> i_compression_ratio info = 0
        \<and> i_checksum info = ''sha:'')
   \<and> store (snd (create_backup demo_lib default_config demo_env ''full'' demo_now
        [([''d''], VDir), ([''d'', ''x.md''], VFile None 3)] empty_state))
        (backup_dir demo_env demo_now) = Some [([''d''], Directory)]"
proof -
  let ?v = "[([''d''], VDir), ([''d'', ''x.md''], VFile None 3)]"
  have fresh: "files_of (case store empty_state (backup_dir demo_env demo_now) of
      None \<Rightarrow> [] | Some t \<Rightarrow> t) = []"
    by (simp add: empty_state_def)
  have t: "a_tree (fst (run_copy demo_lib default_config demo_env ''full'' demo_now ?v empty_state))
      = [([''d''], Directory)]"
    by code_simp
  have "a_copied (fst (run_copy demo_lib default_config demo_env ''full'' demo_now ?v empty_state)) = []"
    by code_simp
  then have h1: "files_to_backup demo_lib default_config ''full'' (idx empty_state) ?v = []
      \<or> a_copied (fst (run_copy demo_lib default_config demo_env ''full'' demo_now ?v empty_state)) = []"
    by simp
  have h2: "files_to_backup demo_lib default_config ''incremental'' (idx empty_state) [] = []
      \<or> a_copied (fst (run_copy demo_lib default_config demo_env ''incremental'' demo_now [] empty_state)) = []"
    by (simp add: files_to_backup_def)
  have s: "sha256 demo_lib [] = ''sha:''" by (simp add: demo_lib_def)
  from create_backup_nothing_copied [OF fresh h1] create_backup_nothing_copied [OF fresh h2] s t
  show ?thesis by simp
qed

section \<open>Properties of timestamps\<close>

subsection \<open>ISO timestamps compare like the instants\<close>

lemma append_less_same_length:
  fixes x y :: "'a::linorder list"
  shows "length x = length y \<Longrightarrow> (x @ u < y @ v) \<longleftrightarrow> (x < y \<or> (x = y \<and> u < v))"
  by (induction x y rule: list_induct2) auto

lemma zpad_length: "length (zpad n k) = n"
  by (induction n arbitrary: k) auto

lemma digit_less: "a < 10 \<Longrightarrow> b < 10 \<Longrightarrow> (digit a < digit b) \<longleftrightarrow> (a < b)"
  by (simp add: digit_def less_char_def)

lemma digit_eq: "a < 10 \<Longrightarrow> b < 10 \<Longrightarrow> (digit a = digit b) \<longleftrightarrow> (a = b)"
proof -
  assume "a < 10" "b < 10"
  then have "of_char (digit a) = (48 + a :: nat)" "of_char (digit b) = (48 + b :: nat)"
    by (simp_all add: digit_def)
  then show ?thesis by (metis add_left_cancel)
qed

lemma zpad_eq: "a < 10 ^ n \<Longrightarrow> b < 10 ^ n \<Longrightarrow> (zpad n a = zpad n b) \<longleftrightarrow> (a = b)"
proof (induction n arbitrary: a b)
  case 0
  then show ?case by simp
next
  case (Suc n)
  from Suc.prems have "a div 10 < 10 ^ n" "b div 10 < 10 ^ n"
    by (simp_all add: less_mult_imp_div_less mult.commute)
  with Suc.IH have "(zpad n (a div 10) = zpad n (b div 10)) \<longleftrightarrow> (a div 10 = b div 10)" by simp
  moreover have "(digit (a mod 10) = digit (b mod 10)) \<longleftrightarrow> (a mod 10 = b mod 10)"
    by (simp add: digit_eq)
  moreover have "a = b \<longleftrightarrow> a div 10 = b div 10 \<and> a mod 10 = b mod 10"
    by (metis div_mult_mod_eq)
  ultimately show ?case by (simp add: zpad_length)
qed

lemma zpad_less: "a < 10 ^ n \<Longrightarrow> b < 10 ^ n \<Longrightarrow> (zpad n a < zpad n b) \<longleftrightarrow> (a < b)"
proof (induction n arbitrary: a b)
  case 0
  then show ?case by simp
next
  case (Suc n)
  from Suc.prems have bd: "a div 10 < 10 ^ n" "b div 10 < 10 ^ n"
    by (simp_all add: less_mult_imp_div_less mult.commute)
  have "(zpad (Suc n) a < zpad (Suc n) b) \<longleftrightarrow>
      (zpad n (a div 10) < zpad n (b div 10)
       \<or> (zpad n (a div 10) = zpad n (b div 10) \<and> [digit (a mod 10)] < [digit (b mod 10)]))"
    by (simp add: append_less_same_length zpad_length)
  also have "\<dots> \<longleftrightarrow> (a div 10 < b div 10 \<or> (a div 10 = b div 10 \<and> a mod 10 < b mod 10))"
    using bd by (simp add: Suc.IH zpad_eq digit_less)
  also have "\<dots> \<longleftrightarrow> a < b"
  proof -
    define qa ra qb rb where "qa = a div 10" "ra = a mod 10" "qb = b div 10" "rb = b mod 10"
    then have "a = 10 * qa + ra" "b = 10 * qb + rb" "ra < 10" "rb < 10" by simp_all
    then show "(qa < qb \<or> (qa = qb \<and> ra < rb)) \<longleftrightarrow> a < b" by arith
  qed
  finally show ?case .
qed

lemma days_in_month_bounds:
  "1 \<le> m \<Longrightarrow> m \<le> 12 \<Longrightarrow> 28 \<le> days_in_month y m \<and> days_in_month y m \<le> 31"
proof -
  assume "1 \<le> m" "m \<le> 12"
  then have "m = 1 \<or> m = 2 \<or> m = 3 \<or> m = 4 \<or> m = 5 \<or> m = 6 \<or> m = 7 \<or> m = 8
      \<or> m = 9 \<or> m = 10 \<or> m = 11 \<or> m = 12" by arith
  then show ?thesis by (auto simp: days_in_month_def)
qed

lemma valid_datetime_digits:
  assumes "valid_datetime a"
  shows "year a < 10 ^ 4" "month a < 10 ^ 2" "day a < 10 ^ 2" "hour a < 10 ^ 2"
    "minute a < 10 ^ 2" "second a < 10 ^ 2" "microsecond a < 10 ^ 6"
proof -
  from assms have "int (day a) \<le> days_in_month (year a) (month a)"
    "1 \<le> month a" "month a \<le> 12"
    by (simp_all add: valid_datetime_def)
  with days_in_month_bounds [of "month a" "year a"] show "day a < 10 ^ 2" by simp
qed (use assms in \<open>simp_all add: valid_datetime_def\<close>)

lemma isoformat_less:
  assumes "valid_datetime a" "valid_datetime b"
  shows "isoformat a < isoformat b \<longleftrightarrow> datetime_less a b"
proof -
  note d = valid_datetime_digits [OF assms(1)] valid_datetime_digits [OF assms(2)]
  show ?thesis
    unfolding isoformat_def datetime_less_def
    using d
    by (simp add: append_less_same_length zpad_length zpad_less zpad_eq del: zpad.simps)
qed
subsection \<open>The order of the fields is the order of the instants\<close>

lemma radix_less:
  fixes q1 q2 r1 r2 B :: int
  assumes "0 \<le> r1" "r1 < B" "0 \<le> r2" "r2 < B"
  shows "(q1 * B + r1 < q2 * B + r2) \<longleftrightarrow> (q1 < q2 \<or> (q1 = q2 \<and> r1 < r2))"
proof -
  have up: "x * B + y < x' * B + y'" if "x < x'" "0 \<le> y" "y < B" "0 \<le> y'" for x x' y y' :: int
  proof -
    from that(1) have "x + 1 \<le> x'" by simp
    moreover from that have "0 \<le> B" by simp
    ultimately have "(x + 1) * B \<le> x' * B" by (rule mult_right_mono)
    with that show ?thesis by (simp add: algebra_simps)
  qed
  consider "q1 < q2" | "q1 = q2" | "q2 < q1" by linarith
  then show ?thesis
  proof cases
    case 1
    with up [of q1 q2 r1 r2] assms show ?thesis by simp
  next
    case 2
    then show ?thesis by simp
  next
    case 3
    with up [of q2 q1 r2 r1] assms show ?thesis by simp
  qed
qed

lemma radix_eq:
  fixes q1 q2 r1 r2 B :: int
  assumes "0 \<le> r1" "r1 < B" "0 \<le> r2" "r2 < B"
  shows "(q1 * B + r1 = q2 * B + r2) \<longleftrightarrow> (q1 = q2 \<and> r1 = r2)"
  using radix_less [OF assms] radix_less [OF assms(3,4,1,2), of q2 q1]
  by (metis less_irrefl linorder_neqE_linordered_idom)

lemma days_before_month_step:
  "1 \<le> m \<Longrightarrow> m < 12 \<Longrightarrow>
     days_before_month y (Suc m) = days_before_month y m + days_in_month y m"
proof -
  assume "1 \<le> m" "m < 12"
  then have "m = 1 \<or> m = 2 \<or> m = 3 \<or> m = 4 \<or> m = 5 \<or> m = 6 \<or> m = 7 \<or> m = 8
      \<or> m = 9 \<or> m = 10 \<or> m = 11" by arith
  then show ?thesis
    by (auto simp: days_before_month_def days_in_month_def eval_nat_numeral)
qed

lemma days_before_month_mono:
  "1 \<le> m \<Longrightarrow> m < m' \<Longrightarrow> m' \<le> 12 \<Longrightarrow>
     days_before_month y m + days_in_month y m \<le> days_before_month y m'"
proof (induction m')
  case 0
  then show ?case by simp
next
  case (Suc k)
  show ?case
  proof (cases "m = k")
    case True
    with Suc.prems show ?thesis by (simp add: days_before_month_step)
  next
    case False
    with Suc.prems have "days_before_month y m + days_in_month y m \<le> days_before_month y k"
      by (intro Suc.IH) auto
    moreover from Suc.prems False have "days_before_month y (Suc k)
        = days_before_month y k + days_in_month y k"
      by (intro days_before_month_step) auto
    moreover from Suc.prems False have "28 \<le> days_in_month y k"
      using days_in_month_bounds [of k y] by auto
    ultimately show ?thesis by simp
  qed
qed

lemma days_before_month_nonneg: "m \<le> 12 \<Longrightarrow> 0 \<le> days_before_month y m"
proof -
  assume "m \<le> 12"
  then have "m = 0 \<or> m = 1 \<or> m = 2 \<or> m = 3 \<or> m = 4 \<or> m = 5 \<or> m = 6 \<or> m = 7 \<or> m = 8
      \<or> m = 9 \<or> m = 10 \<or> m = 11 \<or> m = 12" by arith
  then show ?thesis by (auto simp: days_before_month_def)
qed

lemma days_in_year:
  "1 \<le> m \<Longrightarrow> m \<le> 12 \<Longrightarrow>
     days_before_month y m + days_in_month y m \<le> 365 + (if is_leap y then 1 else 0)"
proof -
  assume m: "1 \<le> m" "m \<le> 12"
  have last: "days_before_month y 12 + days_in_month y 12 = 365 + (if is_leap y then 1 else 0)"
    by (simp add: days_before_month_def days_in_month_def)
  show ?thesis
  proof (cases "m = 12")
    case True
    with last show ?thesis by simp
  next
    case False
    with m days_before_month_mono [of m 12 y] have
      "days_before_month y m + days_in_month y m \<le> days_before_month y 12" by simp
    moreover have "0 \<le> days_in_month y 12" by (simp add: days_in_month_def)
    ultimately show ?thesis using last by linarith
  qed
qed

lemma div_step:
  fixes z d :: int
  assumes "0 < d"
  shows "z div d = (z - 1) div d + (if z mod d = 0 then 1 else 0)"
proof (cases "z mod d = 0")
  case True
  then have z: "z - 1 = (z div d - 1) * d + (d - 1)"
    using div_mult_mod_eq [of z d] by (simp add: algebra_simps)
  have "(z - 1) div d = z div d - 1"
    by (subst z, subst div_mult_self3) (use assms in \<open>simp_all add: div_pos_pos_trivial\<close>)
  with True show ?thesis by simp
next
  case False
  have r: "0 < z mod d" "z mod d < d"
    using False pos_mod_sign [OF assms, of z] pos_mod_bound [OF assms, of z] by linarith+
  have z: "z - 1 = z div d * d + (z mod d - 1)"
    using div_mult_mod_eq [of z d] by (simp add: algebra_simps)
  have "(z - 1) div d = z div d"
    by (subst z, subst div_mult_self3) (use assms r in \<open>simp_all add: div_pos_pos_trivial\<close>)
  with False show ?thesis by simp
qed

lemma days_before_year_Suc:
  "1 \<le> y \<Longrightarrow> days_before_year (Suc y) = days_before_year y + 365 + (if is_leap y then 1 else 0)"
proof -
  assume "1 \<le> y"
  define z where "z = int y"
  have m: "z mod 4 = int (y mod 4)" "z mod 100 = int (y mod 100)" "z mod 400 = int (y mod 400)"
    by (simp_all add: z_def zmod_int)
  have leap: "is_leap y \<longleftrightarrow> z mod 4 = 0 \<and> (z mod 100 \<noteq> 0 \<or> z mod 400 = 0)"
    unfolding is_leap_def m by simp
  have "z mod 100 mod 4 = z mod 4" "z mod 400 mod 100 = z mod 100"
    by (simp_all add: mod_mod_cancel)
  then have i: "z mod 100 = 0 \<Longrightarrow> z mod 4 = 0" "z mod 400 = 0 \<Longrightarrow> z mod 100 = 0"
    by auto
  have d: "z div 4 = (z - 1) div 4 + (if z mod 4 = 0 then 1 else 0)"
    "z div 100 = (z - 1) div 100 + (if z mod 100 = 0 then 1 else 0)"
    "z div 400 = (z - 1) div 400 + (if z mod 400 = 0 then 1 else 0)"
    by (rule div_step, simp)+
  define a b c where "a = (z - 1) div 4" "b = (z - 1) div 100" "c = (z - 1) div 400"
  define k :: int where "k = (if is_leap y then 1 else 0)"
  have e: "days_before_year (Suc y) = z * 365 + z div 4 - z div 100 + z div 400"
    by (simp add: days_before_year_def z_def Let_def)
  have f: "days_before_year y = z * 365 - 365 + a - b + c"
    by (simp add: days_before_year_def z_def Let_def a_b_c_def algebra_simps)
  have "z div 4 - z div 100 + z div 400 = a - b + c + k"
    unfolding d leap k_def a_b_c_def [symmetric]
    using i by (cases "z mod 4 = 0"; cases "z mod 100 = 0"; cases "z mod 400 = 0") simp_all
  then show ?thesis
    unfolding e f k_def [symmetric] by linarith
qed

lemma days_before_year_mono:
  assumes "1 \<le> y" "y \<le> y'"
  shows "days_before_year y \<le> days_before_year y'"
  using assms(2,1)
proof (induction rule: dec_induct)
  case base
  then show ?case by simp
next
  case (step n)
  then have "days_before_year (Suc n) = days_before_year n + 365 + (if is_leap n then 1 else 0)"
    by (intro days_before_year_Suc) simp
  with step show ?case by (simp split: if_splits)
qed

lemma ymd2ord_less:
  assumes "1 \<le> y1" "1 \<le> m1" "m1 \<le> 12" "1 \<le> d1" "int d1 \<le> days_in_month y1 m1"
    and "1 \<le> y2" "1 \<le> m2" "m2 \<le> 12" "1 \<le> d2" "int d2 \<le> days_in_month y2 m2"
    and "y1 < y2 \<or> (y1 = y2 \<and> (m1 < m2 \<or> (m1 = m2 \<and> d1 < d2)))"
  shows "ymd2ord y1 m1 d1 < ymd2ord y2 m2 d2"
proof -
  consider "y1 < y2" | "y1 = y2" "m1 < m2" | "y1 = y2" "m1 = m2" "d1 < d2"
    using assms(11) by blast
  then show ?thesis
  proof cases
    case 1
    have "ymd2ord y1 m1 d1 \<le> days_before_year y1 + (days_before_month y1 m1 + days_in_month y1 m1)"
      using assms(5) by (simp add: ymd2ord_def)
    also have "\<dots> \<le> days_before_year y1 + (365 + (if is_leap y1 then 1 else 0))"
      using days_in_year [OF assms(2,3), of y1] by simp
    also have "\<dots> = days_before_year (Suc y1)"
      using days_before_year_Suc [OF assms(1)] by simp
    also have "\<dots> \<le> days_before_year y2"
      using 1 by (intro days_before_year_mono) simp_all
    also have "\<dots> < ymd2ord y2 m2 d2"
      using days_before_month_nonneg [OF assms(8), of y2] assms(9) by (simp add: ymd2ord_def)
    finally show ?thesis .
  next
    case 2
    with days_before_month_mono [of m1 m2 y1] assms
    have "days_before_month y1 m1 + days_in_month y1 m1 \<le> days_before_month y2 m2" by simp
    with assms(5,9) 2 show ?thesis by (simp add: ymd2ord_def)
  next
    case 3
    then show ?thesis by (simp add: ymd2ord_def)
  qed
qed

lemma to_microseconds_less:
  assumes "valid_datetime a" "valid_datetime b"
  shows "to_microseconds a < to_microseconds b \<longleftrightarrow> datetime_less a b"
proof -
  let ?o = "\<lambda>x. ymd2ord (year x) (month x) (day x)"
  let ?date_less = "\<lambda>a b. year a < year b \<or> (year a = year b \<and>
       (month a < month b \<or> (month a = month b \<and> day a < day b)))"
  have mono: "?o x < ?o y" if "valid_datetime x" "valid_datetime y" "?date_less x y" for x y
    using that by (intro ymd2ord_less) (simp_all add: valid_datetime_def)
  have tri: "?date_less a b \<or> ?date_less b a
      \<or> (year a = year b \<and> month a = month b \<and> day a = day b)"
    by linarith
  have ord_less: "?o a < ?o b \<longleftrightarrow> ?date_less a b"
  proof
    assume l: "?o a < ?o b"
    show "?date_less a b"
    proof (rule ccontr)
      assume n: "\<not> ?date_less a b"
      with tri consider "?date_less b a"
        | "year a = year b \<and> month a = month b \<and> day a = day b" by blast
      then show False
      proof cases
        case 1
        with mono [OF assms(2,1)] l show False by simp
      next
        case 2
        with l show False by simp
      qed
    qed
  next
    assume "?date_less a b"
    with mono [OF assms] show "?o a < ?o b" by simp
  qed
  have ord_eq: "?o a = ?o b \<longleftrightarrow> year a = year b \<and> month a = month b \<and> day a = day b"
  proof
    assume e: "?o a = ?o b"
    show "year a = year b \<and> month a = month b \<and> day a = day b"
    proof (rule ccontr)
      assume "\<not> (year a = year b \<and> month a = month b \<and> day a = day b)"
      with tri consider "?date_less a b" | "?date_less b a" by blast
      then show False
      proof cases
        case 1
        with mono [OF assms] e show False by simp
      next
        case 2
        with mono [OF assms(2,1)] e show False by simp
      qed
    qed
  next
    assume "year a = year b \<and> month a = month b \<and> day a = day b"
    then show "?o a = ?o b" by simp
  qed
  have b: "int (hour a) < 24" "int (minute a) < 60" "int (second a) < 60"
    "int (microsecond a) < 1000000"
    "int (hour b) < 24" "int (minute b) < 60" "int (second b) < 60"
    "int (microsecond b) < 1000000"
    using assms by (simp_all add: valid_datetime_def)
  have n: "0 \<le> int k" for k by simp
  have "to_microseconds a < to_microseconds b \<longleftrightarrow>
      ?o a < ?o b \<or> (?o a = ?o b \<and>
       (hour a < hour b \<or> (hour a = hour b \<and>
         (minute a < minute b \<or> (minute a = minute b \<and>
           (second a < second b \<or> (second a = second b \<and>
             microsecond a < microsecond b)))))))"
    unfolding to_microseconds_def
    unfolding radix_less [OF n b(4) n b(8)] radix_eq [OF n b(3) n b(7)]
      radix_less [OF n b(3) n b(7)] radix_eq [OF n b(2) n b(6)]
      radix_less [OF n b(2) n b(6)] radix_eq [OF n b(1) n b(5)]
      radix_less [OF n b(1) n b(5)] of_nat_less_iff of_nat_eq_iff
    by blast
  then show ?thesis
    unfolding ord_less ord_eq datetime_less_def by blast
qed

lemma isoformat_less_iff_instant:
  "valid_datetime a \<Longrightarrow> valid_datetime b \<Longrightarrow>
     isoformat a < isoformat b \<longleftrightarrow> to_microseconds a < to_microseconds b"
  by (simp add: isoformat_less to_microseconds_less)

section \<open>The retention boundary\<close>

text \<open>
  Claim C7, as the code has it. Let the timestamp of a row be the ISO text of a
  \<^verbatim>\<open>datetime\<close>, and let the cutoff be \<^verbatim>\<open>now\<close> minus the retention period. The row is
  deleted exactly when its instant is strictly before the cutoff and its directory is absent
  or can be removed. So a row one second before the cutoff is deleted unless the removal of
  its directory fails, and a row one second after the cutoff is kept.
\<close>

theorem cleanup_retention_boundary:
  "distinct (map b_id (backups (idx s))) \<Longrightarrow> r \<in> set (backups (idx s))
   \<Longrightarrow> b_timestamp r = isoformat t \<Longrightarrow> valid_datetime t
   \<Longrightarrow> valid_datetime (minus_days L now (retention_days cfg))
   \<Longrightarrow> to_microseconds (minus_days L now (retention_days cfg))
        = to_microseconds now - retention_days cfg * 86400000000
   \<Longrightarrow> (r \<notin> set (backups (idx (cleanup_old_backups L cfg now undeletable s))) \<longleftrightarrow>
          to_microseconds t < to_microseconds now - retention_days cfg * 86400000000
          \<and> \<not> (store s (b_path r) \<noteq> None \<and> undeletable (b_path r)))
       \<and> (to_microseconds t = to_microseconds now - retention_days cfg * 86400000000 - 1000000
            \<and> \<not> (store s (b_path r) \<noteq> None \<and> undeletable (b_path r))
          \<longrightarrow> r \<notin> set (backups (idx (cleanup_old_backups L cfg now undeletable s))))
       \<and> (to_microseconds t = to_microseconds now - retention_days cfg * 86400000000 + 1000000
          \<longrightarrow> r \<in> set (backups (idx (cleanup_old_backups L cfg now undeletable s))))"
proof -
  assume d: "distinct (map b_id (backups (idx s)))" and r: "r \<in> set (backups (idx s))"
    and ts: "b_timestamp r = isoformat t" and vt: "valid_datetime t"
    and vc: "valid_datetime (minus_days L now (retention_days cfg))"
    and c: "to_microseconds (minus_days L now (retention_days cfg))
        = to_microseconds now - retention_days cfg * 86400000000"
  have "b_timestamp r < isoformat (minus_days L now (retention_days cfg)) \<longleftrightarrow>
      to_microseconds t < to_microseconds now - retention_days cfg * 86400000000"
    using isoformat_less_iff_instant [OF vt vc] by (simp add: ts c)
  with cleanup_row_deleted_iff [OF d r, of L cfg now undeletable]
  have main: "r \<notin> set (backups (idx (cleanup_old_backups L cfg now undeletable s))) \<longleftrightarrow>
          to_microseconds t < to_microseconds now - retention_days cfg * 86400000000
          \<and> \<not> (store s (b_path r) \<noteq> None \<and> undeletable (b_path r))"
    by simp
  from main show ?thesis by auto
qed

text \<open>
  With thirty days of retention and the clock at noon of 31 May 2024, a row stamped one
  second before the cutoff whose directory cannot be removed is still in the index after
  the cleanup.
\<close>

theorem cleanup_retention_boundary_counterexample:
  "to_microseconds \<lparr>year = 2024, month = 5, day = 1, hour = 11, minute = 59, second = 59,
       microsecond = 0\<rparr>
     = to_microseconds demo_now - retention_days default_config * 86400000000 - 1000000
   \<and> demo_row 1 (isoformat \<lparr>year = 2024, month = 5, day = 1, hour = 11, minute = 59,
         second = 59, microsecond = 0\<rparr>) ''c'' ''b1''
       \<in> set (backups (idx (cleanup_old_backups demo_lib default_config demo_now (\<lambda>p. p = ''b1'')
             (demo_state [demo_row 1 (isoformat \<lparr>year = 2024, month = 5, day = 1, hour = 11,
                 minute = 59, second = 59, microsecond = 0\<rparr>) ''c'' ''b1'']
                [(''b1'', [])]))))"
  by code_simp

theorem cleanup_retention_boundary_witness:
  "demo_row 1 ''2024-05-01T11:59:59'' ''c'' ''b1''
       \<notin> set (backups (idx (cleanup_old_backups demo_lib default_config demo_now (\<lambda>p. False)
             (demo_state [demo_row 1 ''2024-05-01T11:59:59'' ''c'' ''b1'',
                          demo_row 2 ''2024-05-01T12:00:01'' ''c'' ''b2'']
                [(''b1'', []), (''b2'', [])]))))
   \<and> demo_row 2 ''2024-05-01T12:00:01'' ''c'' ''b2''
       \<in> set (backups (idx (cleanup_old_backups demo_lib default_config demo_now (\<lambda>p. False)
             (demo_state [demo_row 1 ''2024-05-01T11:59:59'' ''c'' ''b1'',
                          demo_row 2 ''2024-05-01T12:00:01'' ''c'' ''b2'']
                [(''b1'', []), (''b2'', [])]))))"
proof -
  let ?r1 = "demo_row 1 ''2024-05-01T11:59:59'' ''c'' ''b1''"
  let ?r2 = "demo_row 2 ''2024-05-01T12:00:01'' ''c'' ''b2''"
  let ?t1 = "\<lparr>year = 2024, month = 5, day = 1, hour = 11, minute = 59, second = 59,
       microsecond = 0\<rparr>"
  let ?t2 = "\<lparr>year = 2024, month = 5, day = 1, hour = 12, minute = 0, second = 1,
       microsecond = 0\<rparr>"
  let ?s = "demo_state [?r1, ?r2] [(''b1'', []), (''b2'', [])]"
  have d: "distinct (map b_id (backups (idx ?s)))"
    by (simp add: demo_state_def demo_row_def)
  have m1: "?r1 \<in> set (backups (idx ?s))" and m2: "?r2 \<in> set (backups (idx ?s))"
    by (simp_all add: demo_state_def)
  have i1: "b_timestamp ?r1 = isoformat ?t1" and i2: "b_timestamp ?r2 = isoformat ?t2"
    by code_simp+
  have v1: "valid_datetime ?t1" and v2: "valid_datetime ?t2"
    and vc: "valid_datetime (minus_days demo_lib demo_now (retention_days default_config))"
    by (simp_all add: valid_datetime_def days_in_month_def demo_lib_def demo_now_def
        default_config_def)
  have c: "to_microseconds (minus_days demo_lib demo_now (retention_days default_config))
      = to_microseconds demo_now - retention_days default_config * 86400000000"
    by code_simp
  have e1: "to_microseconds ?t1
      = to_microseconds demo_now - retention_days default_config * 86400000000 - 1000000"
    and e2: "to_microseconds ?t2
      = to_microseconds demo_now - retention_days default_config * 86400000000 + 1000000"
    by code_simp+
  have nb: "\<not> (store ?s (b_path ?r1) \<noteq> None \<and> (\<lambda>p. False) (b_path ?r1))" by simp
  from cleanup_retention_boundary [OF d m1 i1 v1 vc c, of "\<lambda>p. False"] e1 nb
    cleanup_retention_boundary [OF d m2 i2 v2 vc c, of "\<lambda>p. False"] e2
  show ?thesis by blast
qed

end
